theory Spec2Isabelle
  imports Main
begin

section \<open>Strings and characters of the source language\<close>

text \<open>
  The program is Python; its \<open>str\<close> values are sequences of code points. A \<^typ>\<open>string\<close>
  here is a list of 8-bit characters, read as the code points 0..255 (Latin-1). The
  character classes below are the ones of Python 3 on that range: \<open>str.isspace\<close> and the
  regular-expression classes \<open>\s\<close>, \<open>\d\<close>, \<open>\w\<close> of a \<open>str\<close> pattern, and \<open>str.lower\<close>.
  What the program prints and how long it sleeps is left out of the model.
\<close>

definition code :: "char \<Rightarrow> nat" where
  "code c = of_char c"

definition is_space :: "char \<Rightarrow> bool" where
  "is_space c = (let n = code c in (9 \<le> n \<and> n \<le> 13) \<or> (28 \<le> n \<and> n \<le> 32) \<or> n = 133 \<or> n = 160)"

definition is_digit :: "char \<Rightarrow> bool" where
  "is_digit c = (let n = code c in 48 \<le> n \<and> n \<le> 57)"

definition is_word :: "char \<Rightarrow> bool" where
  "is_word c = (let n = code c in
     (48 \<le> n \<and> n \<le> 57) \<or> (65 \<le> n \<and> n \<le> 90) \<or> n = 95 \<or> (97 \<le> n \<and> n \<le> 122) \<or>
     n = 170 \<or> n = 178 \<or> n = 179 \<or> n = 181 \<or> n = 185 \<or> n = 186 \<or> (188 \<le> n \<and> n \<le> 190) \<or>
     (192 \<le> n \<and> n \<noteq> 215 \<and> n \<noteq> 247))"

definition lower_char :: "char \<Rightarrow> char" where
  "lower_char c = (let n = code c in
     if (65 \<le> n \<and> n \<le> 90) \<or> (192 \<le> n \<and> n \<le> 222 \<and> n \<noteq> 215) then char_of (n + 32) else c)"

text \<open>\<open>s.lower()\<close>\<close>

definition str_lower :: "string \<Rightarrow> string" where
  "str_lower s = map lower_char s"

text \<open>\<open>s.strip()\<close>, \<open>s.rstrip(':')\<close>\<close>

definition str_lstrip :: "string \<Rightarrow> string" where
  "str_lstrip s = dropWhile is_space s"

definition str_rstrip :: "string \<Rightarrow> string" where
  "str_rstrip s = rev (dropWhile is_space (rev s))"

definition str_strip :: "string \<Rightarrow> string" where
  "str_strip s = str_rstrip (str_lstrip s)"

definition str_rstrip_chr :: "char \<Rightarrow> string \<Rightarrow> string" where
  "str_rstrip_chr x s = rev (dropWhile (\<lambda>c. c = x) (rev s))"

text \<open>\<open>a in b\<close> on strings: \<open>a\<close> occurs in \<open>b\<close> as a contiguous substring.\<close>

fun starts_with :: "string \<Rightarrow> string \<Rightarrow> bool" where
  "starts_with [] s = True"
| "starts_with (a # as) [] = False"
| "starts_with (a # as) (c # cs) = (a = c \<and> starts_with as cs)"

fun str_in :: "string \<Rightarrow> string \<Rightarrow> bool" where
  "str_in a [] = (a = [])"
| "str_in a (c # cs) = (starts_with a (c # cs) \<or> str_in a cs)"

text \<open>\<open>s.count(x)\<close> for a one-character \<open>x\<close>\<close>

definition str_count :: "char \<Rightarrow> string \<Rightarrow> nat" where
  "str_count x s = length (filter (\<lambda>c. c = x) s)"

text \<open>\<open>s.split()\<close>: the maximal runs of non-whitespace characters, in order.\<close>

fun str_split_ws :: "string \<Rightarrow> string \<Rightarrow> string list" where
  "str_split_ws cur [] = (if cur = [] then [] else [cur])"
| "str_split_ws cur (c # cs) =
     (if is_space c then (if cur = [] then str_split_ws [] cs else cur # str_split_ws [] cs)
      else str_split_ws (cur @ [c]) cs)"

definition str_split :: "string \<Rightarrow> string list" where
  "str_split s = str_split_ws [] s"

text \<open>\<open>s.split(x)\<close> for a one-character separator: empty pieces are kept, and the
  result always has at least one piece.\<close>

fun str_split_chr_acc :: "char \<Rightarrow> string \<Rightarrow> string \<Rightarrow> string list" where
  "str_split_chr_acc x cur [] = [cur]"
| "str_split_chr_acc x cur (c # cs) =
     (if c = x then cur # str_split_chr_acc x [] cs else str_split_chr_acc x (cur @ [c]) cs)"

definition str_split_chr :: "char \<Rightarrow> string \<Rightarrow> string list" where
  "str_split_chr x s = str_split_chr_acc x [] s"

text \<open>\<open>s.replace(x, y)\<close> for one-character \<open>x\<close> and \<open>y\<close>\<close>

definition str_replace_chr :: "char \<Rightarrow> char \<Rightarrow> string \<Rightarrow> string" where
  "str_replace_chr x y s = map (\<lambda>c. if c = x then y else c) s"

text \<open>\<open>sep.join(xs)\<close>\<close>

fun str_join :: "string \<Rightarrow> string list \<Rightarrow> string" where
  "str_join sep [] = []"
| "str_join sep [x] = x"
| "str_join sep (x # y # ys) = x @ sep @ str_join sep (y # ys)"

text \<open>\<open>s.zfill(w)\<close> on a string of digits (no sign): zeros are added on the left up to
  width \<open>w\<close>; a longer string is returned as it is.\<close>

definition str_zfill :: "nat \<Rightarrow> string \<Rightarrow> string" where
  "str_zfill w s = replicate (w - length s) (CHR ''0'') @ s"

section \<open>Regular expressions of the \<open>re\<close> module, as a backtracking matcher\<close>

text \<open>
  The patterns of the source are written as terms of \<open>rx\<close>. A match runs from a cursor:
  the character just before it (none at the start of the subject), the rest of the subject,
  and the groups captured so far. \<open>rmatch\<close> returns every cursor at which the
  pattern can end, in the order in which the backtracking matcher of \<open>re\<close> tries them
  (greedy quantifiers first try to consume, alternatives are tried from left to right), so
  the head of the list is the match that \<open>re\<close> reports. The flag is \<open>re.IGNORECASE\<close>.
  Repetition with \<open>*\<close> and \<open>+\<close> is applied to one-character atoms only, as in the source.
\<close>

datatype item = Ch char | Rng char char | Digit | Space

datatype atom = In "item list" | NotIn "item list"

datatype rx =
    Eps
  | One atom
  | Many atom
  | Bol
  | Eol
  | WordB
  | Seq rx rx
  | Alt rx rx
  | Opt rx
  | Grp rx

type_synonym cursor = "char option \<times> string \<times> string list"

fun item_ok :: "bool \<Rightarrow> item \<Rightarrow> char \<Rightarrow> bool" where
  "item_ok ic (Ch x) c = (if ic then lower_char c = lower_char x else c = x)"
| "item_ok ic (Rng lo hi) c = (code lo \<le> code c \<and> code c \<le> code hi)"
| "item_ok ic Digit c = is_digit c"
| "item_ok ic Space c = is_space c"

fun atom_ok :: "bool \<Rightarrow> atom \<Rightarrow> char \<Rightarrow> bool" where
  "atom_ok ic (In xs) c = list_ex (\<lambda>i. item_ok ic i c) xs"
| "atom_ok ic (NotIn xs) c = (\<not> list_ex (\<lambda>i. item_ok ic i c) xs)"

fun many :: "bool \<Rightarrow> atom \<Rightarrow> char option \<Rightarrow> string \<Rightarrow> string list \<Rightarrow> cursor list" where
  "many ic a p [] g = [(p, [], g)]"
| "many ic a p (c # cs) g =
     (if atom_ok ic a c then many ic a (Some c) cs g @ [(p, c # cs, g)] else [(p, c # cs, g)])"

definition at_boundary :: "char option \<Rightarrow> string \<Rightarrow> bool" where
  "at_boundary p s =
     ((case p of None \<Rightarrow> False | Some c \<Rightarrow> is_word c) \<noteq> (case s of [] \<Rightarrow> False | c # _ \<Rightarrow> is_word c))"

fun rmatch :: "bool \<Rightarrow> rx \<Rightarrow> cursor \<Rightarrow> cursor list" where
  "rmatch ic Eps (p, s, g) = [(p, s, g)]"
| "rmatch ic (One a) (p, s, g) =
     (case s of [] \<Rightarrow> [] | c # cs \<Rightarrow> if atom_ok ic a c then [(Some c, cs, g)] else [])"
| "rmatch ic (Many a) (p, s, g) = many ic a p s g"
| "rmatch ic Bol (p, s, g) = (if p = None then [(p, s, g)] else [])"
| "rmatch ic Eol (p, s, g) = (if s = [] \<or> s = [CHR 0x0A] then [(p, s, g)] else [])"
| "rmatch ic WordB (p, s, g) = (if at_boundary p s then [(p, s, g)] else [])"
| "rmatch ic (Seq a b) st = concat (map (rmatch ic b) (rmatch ic a st))"
| "rmatch ic (Alt a b) st = rmatch ic a st @ rmatch ic b st"
| "rmatch ic (Opt a) st = rmatch ic a st @ [st]"
| "rmatch ic (Grp a) (p, s, g) =
     map (\<lambda>(p', s', g'). (p', s', g' @ [take (length s - length s') s])) (rmatch ic a (p, s, g))"

text \<open>Pattern syntax: a literal string, \<open>r{n}\<close>, \<open>a+\<close>, a sequence, alternatives joined by \<open>|\<close>.\<close>

definition chr :: "char \<Rightarrow> rx" where
  "chr c = One (In [Ch c])"

fun lit :: "string \<Rightarrow> rx" where
  "lit [] = Eps"
| "lit [c] = chr c"
| "lit (c # cs) = Seq (chr c) (lit cs)"

fun rep :: "nat \<Rightarrow> rx \<Rightarrow> rx" where
  "rep 0 r = Eps"
| "rep (Suc 0) r = r"
| "rep (Suc n) r = Seq r (rep n r)"

definition many1 :: "atom \<Rightarrow> rx" where
  "many1 a = Seq (One a) (Many a)"

fun seqs :: "rx list \<Rightarrow> rx" where
  "seqs [] = Eps"
| "seqs [r] = r"
| "seqs (r # rs) = Seq r (seqs rs)"

fun alts :: "rx list \<Rightarrow> rx" where
  "alts [] = Eps"
| "alts [r] = r"
| "alts (r # rs) = Alt r (alts rs)"

text \<open>
  \<open>re.search\<close>: the start positions are tried from left to right; the result is the
  matched text and the captured groups of the first match found. \<open>re.match\<close> tries the
  start of the subject only. \<open>re.sub(pattern, '', s)\<close> deletes the matches found from left
  to right, each search starting where the previous match ended.
\<close>

fun search_from :: "bool \<Rightarrow> rx \<Rightarrow> char option \<Rightarrow> string \<Rightarrow> (string \<times> string list) option" where
  "search_from ic r p [] =
     (case rmatch ic r (p, [], []) of [] \<Rightarrow> None | (p', s', g) # _ \<Rightarrow> Some ([], g))"
| "search_from ic r p (c # cs) =
     (case rmatch ic r (p, c # cs, []) of
        [] \<Rightarrow> search_from ic r (Some c) cs
      | (p', s', g) # _ \<Rightarrow> Some (take (length (c # cs) - length s') (c # cs), g))"

definition re_search :: "bool \<Rightarrow> rx \<Rightarrow> string \<Rightarrow> (string \<times> string list) option" where
  "re_search ic r s = search_from ic r None s"

definition re_match :: "bool \<Rightarrow> rx \<Rightarrow> string \<Rightarrow> (string \<times> string list) option" where
  "re_match ic r s =
     (case rmatch ic r (None, s, []) of [] \<Rightarrow> None
      | (p', s', g) # _ \<Rightarrow> Some (take (length s - length s') s, g))"

function sub_del :: "bool \<Rightarrow> rx \<Rightarrow> char option \<Rightarrow> string \<Rightarrow> string" where
  "sub_del ic r p s =
     (case rmatch ic r (p, s, []) of
        (p', s', g) # _ \<Rightarrow>
          if length s' < length s then sub_del ic r p' s'
          else (case s of [] \<Rightarrow> [] | c # cs \<Rightarrow> c # sub_del ic r (Some c) cs)
      | [] \<Rightarrow> (case s of [] \<Rightarrow> [] | c # cs \<Rightarrow> c # sub_del ic r (Some c) cs))"
  by pat_completeness auto
termination
  by (relation "measure (\<lambda>(ic, r, p, s). length s)") auto

declare sub_del.simps [simp del]

definition re_sub_del :: "bool \<Rightarrow> rx \<Rightarrow> string \<Rightarrow> string" where
  "re_sub_del ic r s = sub_del ic r None s"

section \<open>The defendant classifier\<close>

text \<open>
  \<open>is_company\<close> (src/app.py, lines 182-249). The catalogue \<open>company_patterns\<close> lists the
  patterns of the source in their order; \<open>wb r\<close> is \<open>\b(r)\b\<close> and \<open>dotted\<close> is a letter
  sequence with an optional dot after each letter, between word boundaries, as in
  \<open>\bl\.?l\.?c\.?\b\<close>. The patterns are joined with \<open>|\<close> and searched with
  \<open>re.IGNORECASE\<close>.
\<close>

definition wb :: "rx \<Rightarrow> rx" where
  "wb r = seqs [WordB, Grp r, WordB]"

definition words :: "string list \<Rightarrow> rx" where
  "words ws = wb (alts (map lit ws))"

definition dotted :: "string \<Rightarrow> rx" where
  "dotted s = seqs ([WordB] @ concat (map (\<lambda>c. [chr c, Opt (chr CHR ''.'')]) s) @ [WordB])"

definition company_patterns :: "rx list" where
  "company_patterns = [
     words [''llc'', ''inc'', ''corp'', ''ltd'', ''llp'', ''lp'', ''plc''],
     dotted ''llc'',
     dotted ''llp'',
     words [''limited'', ''incorporated'', ''corporation''],
     dotted ''pc'',
     dotted ''dba'',
     words [''bank'', ''trust company'', ''banking'', ''financial'', ''credit union''],
     wb (alts [Seq (lit ''investment'') (Opt (One (In [Ch CHR ''s'']))),
               lit ''fund'', lit ''capital'', lit ''securities'', lit ''wealth'']),
     words [''mortgage'', ''loan'', ''finance'', ''lending'', ''leasing''],
     words [''company'', ''companies'', ''group'', ''associates''],
     words [''partners'', ''properties'', ''solutions'', ''systems''],
     words [''enterprises'', ''ventures'', ''industries''],
     words [''holdings'', ''global'', ''international''],
     words [''realty'', ''construction'', ''development''],
     words [''management'', ''consulting'', ''services''],
     words [''agency'', ''firm'', ''bureau'', ''institute''],
     words [''foundation'', ''association'', ''society'', ''alliance''],
     words [''network'', ''organization'', ''federation'', ''coalition''],
     words [''committee'', ''commission'', ''authority'', ''council''],
     words [''department'', ''division'', ''branch'', ''unit''],
     words [''school'', ''university'', ''college'', ''academy''],
     words [''hospital'', ''clinic'', ''medical'', ''healthcare''],
     words [''center'', ''centre'', ''laboratory''],
     words [''church'', ''ministry'', ''temple'', ''mosque''],
     words [''charity'', ''nonprofit'', ''ngo''],
     words [''county'', ''city'', ''state'', ''federal'', ''bureau'', ''department''],
     words [''united states'', ''usa'', ''u.s.a.'', ''u.s.'', ''us''],
     lit ''unknown spouse'',
     lit ''unknown tenant'',
     lit ''unknown occupant'',
     lit ''john doe'',
     lit ''jane doe'',
     lit ''et al'']"

definition company_indicators :: "string \<Rightarrow> bool list" where
  "company_indicators name = [
     str_count CHR ''&'' name > 0,
     str_count CHR '','' name > 1,
     re_search False (One (In [Digit])) name \<noteq> None,
     length (str_split name) > 4]"

definition is_company :: "string \<Rightarrow> bool" where
  "is_company name =
     (if re_search True (alts company_patterns) name \<noteq> None then True
      else list_ex (\<lambda>b. b) (company_indicators name))"

section \<open>Main-defendant selection\<close>

text \<open>\<open>find_main_defendant\<close> (src/app.py, lines 251-266).\<close>

definition find_main_defendant :: "string list \<Rightarrow> string" where
  "find_main_defendant defendants =
     (if defendants = [] then ''No defendants found''
      else let individual_defendants = filter (\<lambda>name. \<not> is_company name) defendants
           in if individual_defendants \<noteq> [] then hd individual_defendants
              else hd defendants)"

section \<open>Case numbers\<close>

text \<open>
  \<open>parse_case_number\<close> (src/app.py, lines 22-46), on a string argument (\<open>pd.isna\<close> is
  false on every string). \<open>bracket_rx\<close> is \<open>\s*\([^)]*\)\<close> and \<open>case_rx\<close> is
  \<open>^(\d{2})([A-Z]{2})(\d+)$\<close>.
\<close>

record case_number =
  year :: string
  case_type :: string
  sequence :: string
  original :: string

definition bracket_rx :: rx where
  "bracket_rx = seqs [Many (In [Space]), chr CHR ''('', Many (NotIn [Ch CHR '')'']), chr CHR '')'']"

definition case_rx :: rx where
  "case_rx = seqs [Bol, Grp (rep 2 (One (In [Digit]))), Grp (rep 2 (One (In [Rng CHR ''A'' CHR ''Z'']))),
                   Grp (many1 (In [Digit])), Eol]"

definition clean_case :: "string \<Rightarrow> string" where
  "clean_case case_num_str = re_sub_del False bracket_rx (str_strip case_num_str)"

definition parse_case_number :: "string \<Rightarrow> case_number option" where
  "parse_case_number case_num_str =
     (if case_num_str = [] then None
      else case re_match False case_rx (clean_case case_num_str) of
             Some (m, [g1, g2, g3]) \<Rightarrow>
               Some \<lparr>year = g1, case_type = g2, sequence = str_zfill 7 g3, original = case_num_str\<rparr>
           | _ \<Rightarrow> None)"

section \<open>The page as the browser shows it\<close>

text \<open>
  The functions below read the case page through the browser driver. The driver is modelled
  by what the page holds and by the record of what has been done to it:
  \<^item> \<open>defendant_table\<close>: the rows of the defendant table, each the texts of its cells
    (\<open>None\<close> for a row whose reading raises); \<open>None\<close> when the table does not appear;
  \<^item> \<open>docket\<close>: for a delivery method, the docket rows \<open>PROOF OF SERVICE ISSUED - method\<close>
    in page order; \<open>None\<close> when the lookup raises;
  \<^item> \<open>inspected\<close>: the docket rows handed to \<open>extract_service_details_fast\<close> so far, each
    as the delivery method and the index of the row in page order.
  A docket row holds the rows of its detail table, each the texts of its cells (\<open>None\<close> when
  a step up to reading them raises: no expand image, a click that fails, a table that does
  not appear), and whether the click that collapses the detail succeeds. The page does not
  change between two readings of the same row.
\<close>

type_synonym service_details = "string \<rightharpoonup> string"

record docket_row =
  doc_table :: "string list list option"
  collapses :: bool

record driver =
  defendant_table :: "string list option list option"
  docket :: "string \<Rightarrow> docket_row list option"
  inspected :: "(string \<times> nat) list"

definition dict_get :: "service_details \<Rightarrow> string \<Rightarrow> string \<Rightarrow> string" where
  "dict_get d k dflt = (case d k of None \<Rightarrow> dflt | Some v \<Rightarrow> v)"

text \<open>\<open>extract_all_defendants_fast\<close> (src/app.py, lines 373-403).\<close>

definition extract_all_defendants_fast :: "driver \<Rightarrow> string list" where
  "extract_all_defendants_fast drv =
     (case defendant_table drv of
        None \<Rightarrow> []
      | Some defendant_rows \<Rightarrow>
          concat (map (\<lambda>def_row.
            case def_row of
              None \<Rightarrow> []
            | Some def_cells \<Rightarrow>
                if length def_cells \<ge> 2
                then (let defendant_name = str_strip (def_cells ! 1)
                      in if defendant_name \<noteq> [] then [defendant_name] else [])
                else []) defendant_rows))"

text \<open>\<open>extract_service_details_fast\<close> (src/app.py, lines 479-514): any exception gives \<open>None\<close>.\<close>

definition add_detail :: "service_details \<Rightarrow> string list \<Rightarrow> service_details" where
  "add_detail service_details cells =
     (if length cells \<ge> 2
      then (let label = str_replace_chr CHR '' '' CHR ''_''
                          (str_lower (str_rstrip_chr CHR '':'' (str_strip (cells ! 0))));
                value = str_strip (cells ! 1)
            in if label \<noteq> [] then service_details(''service_'' @ label \<mapsto> value) else service_details)
      else service_details)"

definition read_details :: "docket_row \<Rightarrow> string \<Rightarrow> service_details option" where
  "read_details row service_type =
     (case doc_table row of
        None \<Rightarrow> None
      | Some rows \<Rightarrow>
          let service_details = foldl add_detail [''service_delivery_method'' \<mapsto> service_type] rows
          in if collapses row then Some service_details else None)"

definition extract_service_details_fast ::
  "driver \<Rightarrow> nat \<times> docket_row \<Rightarrow> string \<Rightarrow> service_details option \<times> driver" where
  "extract_service_details_fast drv irow service_type =
     (read_details (snd irow) service_type,
      drv\<lparr>inspected := inspected drv @ [(service_type, fst irow)]\<rparr>)"

section \<open>The service resolver\<close>

text \<open>
  \<open>find_proof_of_service_fast\<close> (src/app.py, lines 405-477). \<open>scan_main\<close> is the loop of
  step 1 and \<open>scan_human\<close> the loop of step 2, over \<open>enumerate(service_rows[:5])\<close>;
  \<open>search_types\<close> is the loop over the delivery methods. An exception of the lookup of the
  rows reaches the outer handler, which returns \<open>None\<close>. The click on the docket link
  before the search is inside its own handler and gives no value.
\<close>

definition name_matches :: "string \<Rightarrow> service_details \<Rightarrow> bool" where
  "name_matches main_defendant_name service_details =
     (let name_match = str_lower (dict_get service_details ''service_name'' '''')
      in str_in (str_lower main_defendant_name) name_match \<or>
         str_in name_match (str_lower main_defendant_name))"

definition is_human :: "service_details \<Rightarrow> bool" where
  "is_human service_details =
     (let defendant_name = dict_get service_details ''service_name'' ''''
      in defendant_name \<noteq> [] \<and> \<not> is_company defendant_name)"

fun scan_main ::
  "driver \<Rightarrow> string \<Rightarrow> string \<Rightarrow> (nat \<times> docket_row) list \<Rightarrow> service_details option \<times> driver" where
  "scan_main drv main_defendant_name service_type [] = (None, drv)"
| "scan_main drv main_defendant_name service_type (row # rows) =
     (case extract_service_details_fast drv row service_type of
        (None, drv') \<Rightarrow> scan_main drv' main_defendant_name service_type rows
      | (Some service_details, drv') \<Rightarrow>
          if name_matches main_defendant_name service_details then (Some service_details, drv')
          else scan_main drv' main_defendant_name service_type rows)"

fun scan_human ::
  "driver \<Rightarrow> string \<Rightarrow> (nat \<times> docket_row) list \<Rightarrow> service_details option \<times> driver" where
  "scan_human drv service_type [] = (None, drv)"
| "scan_human drv service_type (row # rows) =
     (case extract_service_details_fast drv row service_type of
        (None, drv') \<Rightarrow> scan_human drv' service_type rows
      | (Some service_details, drv') \<Rightarrow>
          if is_human service_details then (Some service_details, drv')
          else scan_human drv' service_type rows)"

fun search_types ::
  "driver \<Rightarrow> string \<Rightarrow> string list \<Rightarrow> service_details option \<times> driver" where
  "search_types drv main_defendant_name [] = (None, drv)"
| "search_types drv main_defendant_name (service_type # service_types) =
     (case docket drv service_type of
        None \<Rightarrow> (None, drv)
      | Some service_rows \<Rightarrow>
          if service_rows = [] then search_types drv main_defendant_name service_types
          else (case scan_main drv main_defendant_name service_type
                       (enumerate 0 (take 5 service_rows)) of
                  (Some service_details, drv') \<Rightarrow> (Some service_details, drv')
                | (None, drv') \<Rightarrow>
                    (case scan_human drv' service_type (enumerate 0 (take 5 service_rows)) of
                       (Some service_details, drv'') \<Rightarrow> (Some service_details, drv'')
                     | (None, drv'') \<Rightarrow> search_types drv'' main_defendant_name service_types)))"

definition service_types :: "string list" where
  "service_types = [''CERTIFIED MAIL'', ''PROCESS SERVER'']"

definition find_proof_of_service_fast ::
  "driver \<Rightarrow> string \<Rightarrow> service_details option \<times> driver" where
  "find_proof_of_service_fast drv main_defendant_name =
     search_types drv main_defendant_name service_types"

section \<open>The attorney record\<close>

text \<open>
  \<open>extract_attorney_data\<close> (src/app.py, lines 270-371). The three readings of the clock are
  the arguments \<open>late1\<close>, \<open>late2\<close>, \<open>late3\<close>: whether more than 30 seconds have passed at
  the check. No call between the checks raises (the functions called handle their own
  exceptions), so the status \<open>Error: ...\<close> of the handler is not produced. \<open>phone_rx\<close> is
  \<open>\(?\d{3}\)?[-.\s]?\d{3}[-.\s]?\d{4}\<close>.
\<close>

record attorney_data =
  attorney_name :: string
  attorney_firm :: string
  attorney_address :: string
  attorney_phone :: string
  service_type :: string
  service_date :: string
  certified_mail_no :: string
  defendant_name :: string
  defendant_address :: string
  service_status :: string
  main_defendant :: string
  all_defendants :: string
  defendant_count :: nat
  service_match :: string
  extraction_status :: string

definition initial_attorney_data :: attorney_data where
  "initial_attorney_data =
     \<lparr>attorney_name = '''', attorney_firm = '''', attorney_address = '''', attorney_phone = '''',
      service_type = '''', service_date = '''', certified_mail_no = '''', defendant_name = '''',
      defendant_address = '''', service_status = '''', main_defendant = '''', all_defendants = '''',
      defendant_count = 0, service_match = '''', extraction_status = ''Not Found''\<rparr>"

definition phone_sep :: rx where
  "phone_sep = Opt (One (In [Ch CHR ''-'', Ch CHR ''.'', Space]))"

definition phone_rx :: rx where
  "phone_rx = seqs [Opt (chr CHR ''(''), rep 3 (One (In [Digit])), Opt (chr CHR '')''), phone_sep,
                    rep 3 (One (In [Digit])), phone_sep, rep 4 (One (In [Digit]))]"

definition parse_address :: "string \<Rightarrow> attorney_data \<Rightarrow> attorney_data" where
  "parse_address address a =
     (if address \<noteq> []
      then (let lines = str_split_chr CHR ''|'' (str_replace_chr CHR 0x0A CHR ''|'' address);
                a1 = a\<lparr>attorney_firm := str_strip (hd lines)\<rparr>;
                a2 = (if length lines > 1
                      then a1\<lparr>attorney_address := str_strip (str_join '' '' (tl lines))\<rparr>
                      else a1)
            in case re_search False phone_rx address of
                 Some (phone_match, g) \<Rightarrow> a2\<lparr>attorney_phone := phone_match\<rparr>
               | None \<Rightarrow> a2)
      else a)"

definition map_service :: "string \<Rightarrow> service_details \<Rightarrow> attorney_data \<Rightarrow> attorney_data" where
  "map_service main_defendant_name service_details a =
     (let a1 = a\<lparr>service_type := dict_get service_details ''service_delivery_method'' '''',
                 defendant_name := dict_get service_details ''service_name'' '''',
                 attorney_name := dict_get service_details ''service_attorney_name'' ''''\<rparr>;
          served_defendant = dict_get service_details ''service_name'' '''';
          a2 = (if str_in (str_lower main_defendant_name) (str_lower served_defendant) \<or>
                   str_in (str_lower served_defendant) (str_lower main_defendant_name)
                then a1\<lparr>service_match := ''Main Defendant''\<rparr>
                else a1\<lparr>service_match := ''Other Human Defendant''\<rparr>);
          a3 = parse_address (dict_get service_details ''service_attorney_address'' '''') a2
      in a3\<lparr>extraction_status := ''Found''\<rparr>)"

definition extract_attorney_data ::
  "driver \<Rightarrow> bool \<Rightarrow> bool \<Rightarrow> bool \<Rightarrow> attorney_data \<times> driver" where
  "extract_attorney_data drv late1 late2 late3 =
     (let a = initial_attorney_data in
      if late1 then (a\<lparr>extraction_status := ''Timeout - Overall Process''\<rparr>, drv)
      else let defendants = extract_all_defendants_fast drv in
      if late2 then (a\<lparr>extraction_status := ''Timeout - After Defendants''\<rparr>, drv)
      else if defendants = [] then (a\<lparr>extraction_status := ''No Defendants Found''\<rparr>, drv)
      else let main_defendant_name = find_main_defendant defendants;
               a1 = a\<lparr>all_defendants := str_join ''; '' defendants,
                       defendant_count := length defendants,
                       main_defendant := main_defendant_name\<rparr> in
      if main_defendant_name = ''No defendants found''
      then (a1\<lparr>extraction_status := ''No Defendants Found''\<rparr>, drv)
      else if late3 then (a1\<lparr>extraction_status := ''Timeout - Before Service Search''\<rparr>, drv)
      else (case find_proof_of_service_fast drv main_defendant_name of
              (Some service_details, drv') \<Rightarrow>
                if service_details \<noteq> Map.empty
                then (map_service main_defendant_name service_details a1, drv')
                else (a1\<lparr>extraction_status := ''No Service Records Found''\<rparr>, drv')
            | (None, drv') \<Rightarrow> (a1\<lparr>extraction_status := ''No Service Records Found''\<rparr>, drv')))"

section \<open>The resolver in the words of the specification\<close>

text \<open>
  The candidates of a delivery method are the records of its first five docket rows that
  can be read, in page order. The primary phase returns the first candidate whose served
  name and the main defendant contain one another, ignoring case, in either direction;
  the fallback phase returns the first candidate whose served name is non-empty and is
  classified as an individual. The methods are searched in the order CERTIFIED MAIL,
  PROCESS SERVER.
\<close>

definition readable :: "string \<Rightarrow> docket_row list \<Rightarrow> service_details list" where
  "readable method rows =
     concat (map (\<lambda>row. case read_details row method of None \<Rightarrow> [] | Some d \<Rightarrow> [d]) rows)"

definition ci_contains :: "string \<Rightarrow> string \<Rightarrow> bool" where
  "ci_contains a b = str_in (str_lower a) (str_lower b)"

definition served_name :: "service_details \<Rightarrow> string" where
  "served_name d = (case d ''service_name'' of None \<Rightarrow> [] | Some v \<Rightarrow> v)"

definition primary_phase :: "string \<Rightarrow> service_details list \<Rightarrow> service_details option" where
  "primary_phase md cs =
     List.find (\<lambda>d. ci_contains (served_name d) md \<or> ci_contains md (served_name d)) cs"

definition fallback_phase :: "service_details list \<Rightarrow> service_details option" where
  "fallback_phase cs = List.find (\<lambda>d. served_name d \<noteq> [] \<and> \<not> is_company (served_name d)) cs"

definition two_phase :: "string \<Rightarrow> service_details list \<Rightarrow> service_details option" where
  "two_phase md cs = (case primary_phase md cs of Some d \<Rightarrow> Some d | None \<Rightarrow> fallback_phase cs)"

definition resolve_service :: "driver \<Rightarrow> string \<Rightarrow> service_details option" where
  "resolve_service drv md =
     (case docket drv ''CERTIFIED MAIL'' of
        None \<Rightarrow> None
      | Some rows1 \<Rightarrow>
          (case two_phase md (readable ''CERTIFIED MAIL'' (take 5 rows1)) of
             Some d \<Rightarrow> Some d
           | None \<Rightarrow>
               (case docket drv ''PROCESS SERVER'' of
                  None \<Rightarrow> None
                | Some rows2 \<Rightarrow> two_phase md (readable ''PROCESS SERVER'' (take 5 rows2)))))"

text \<open>
  The rows a search inspects. A phase goes through the first five rows of a delivery method
  in page order and stops at the first row whose record passes its test: it inspects the
  rows up to and including that row, and all of them when no record passes. The fallback
  phase runs only when the primary phase has found nothing, and PROCESS SERVER is searched
  only when both phases of CERTIFIED MAIL have found nothing. A row is named by its
  delivery method and its index in page order.
\<close>

fun upto_first :: "('a \<Rightarrow> bool) \<Rightarrow> 'a list \<Rightarrow> 'a list" where
  "upto_first P [] = []"
| "upto_first P (x # xs) = (if P x then [x] else x # upto_first P xs)"

definition primary_test :: "string \<Rightarrow> service_details \<Rightarrow> bool" where
  "primary_test md d = (ci_contains (served_name d) md \<or> ci_contains md (served_name d))"

definition fallback_test :: "service_details \<Rightarrow> bool" where
  "fallback_test d = (served_name d \<noteq> [] \<and> \<not> is_company (served_name d))"

definition passes :: "(service_details \<Rightarrow> bool) \<Rightarrow> string \<Rightarrow> docket_row \<Rightarrow> bool" where
  "passes test method row = (case read_details row method of None \<Rightarrow> False | Some d \<Rightarrow> test d)"

definition phase_rows ::
  "(service_details \<Rightarrow> bool) \<Rightarrow> string \<Rightarrow> docket_row list \<Rightarrow> (string \<times> nat) list" where
  "phase_rows test method rows =
     map (\<lambda>i. (method, i)) [0..<length (upto_first (passes test method) rows)]"

definition category_rows :: "string \<Rightarrow> string \<Rightarrow> docket_row list \<Rightarrow> (string \<times> nat) list" where
  "category_rows md method rows =
     phase_rows (primary_test md) method (take 5 rows) @
     (if list_ex (passes (primary_test md) method) (take 5 rows) then []
      else phase_rows fallback_test method (take 5 rows))"

definition found_in :: "string \<Rightarrow> string \<Rightarrow> docket_row list \<Rightarrow> bool" where
  "found_in md method rows =
     (list_ex (passes (primary_test md) method) (take 5 rows) \<or>
      list_ex (passes fallback_test method) (take 5 rows))"

definition resolve_rows :: "driver \<Rightarrow> string \<Rightarrow> (string \<times> nat) list" where
  "resolve_rows drv md =
     (case docket drv ''CERTIFIED MAIL'' of
        None \<Rightarrow> []
      | Some rows1 \<Rightarrow>
          category_rows md ''CERTIFIED MAIL'' rows1 @
          (if found_in md ''CERTIFIED MAIL'' rows1 then []
           else (case docket drv ''PROCESS SERVER'' of
                   None \<Rightarrow> []
                 | Some rows2 \<Rightarrow> category_rows md ''PROCESS SERVER'' rows2)))"

section \<open>Example pages\<close>

text \<open>A docket row whose detail table lists the given label and value pairs.\<close>

definition detail_row :: "(string \<times> string) list \<Rightarrow> docket_row" where
  "detail_row kvs = \<lparr>doc_table = Some (map (\<lambda>(k, v). [k, v]) kvs), collapses = True\<rparr>"

definition broken_row :: docket_row where
  "broken_row = \<lparr>doc_table = None, collapses = True\<rparr>"

definition page :: "string list \<Rightarrow> docket_row list \<Rightarrow> docket_row list \<Rightarrow> driver" where
  "page names certified served =
     \<lparr>defendant_table = Some (map (\<lambda>n. Some [''1'', n]) names),
      docket = (\<lambda>method. if method = ''CERTIFIED MAIL'' then Some certified
                          else if method = ''PROCESS SERVER'' then Some served else Some []),
      inspected = []\<rparr>"

definition bank_row :: docket_row where
  "bank_row = detail_row [(''Name:'', ''ABC Bank''), (''Attorney Name:'', ''Roe Law'')]"

definition smith_row :: docket_row where
  "smith_row = detail_row [(''Name:'', ''Jane Smith''), (''Attorney Name:'', ''Ann Lee'')]"

definition nameless_row :: docket_row where
  "nameless_row = detail_row [(''Attorney Name:'', ''Roe Law'')]"

definition no_attorney_row :: docket_row where
  "no_attorney_row = detail_row [(''Name:'', ''Jane Smith'')]"

definition junior_row :: docket_row where
  "junior_row = detail_row [(''Name:'', ''Jane Smith Jr''), (''Attorney Name:'', ''Ann Lee'')]"

section \<open>The record of a case before the service search\<close>

text \<open>
  \<open>scraped\<close> is the record as \<open>extract_attorney_data\<close> holds it when it calls the resolver,
  and \<open>resolver_ran\<close> says that it gets there: no check of the clock stops the case and
  the defendants give a main defendant.
\<close>

definition scraped :: "driver \<Rightarrow> attorney_data" where
  "scraped drv =
     initial_attorney_data
       \<lparr>all_defendants := str_join ''; '' (extract_all_defendants_fast drv),
        defendant_count := length (extract_all_defendants_fast drv),
        main_defendant := find_main_defendant (extract_all_defendants_fast drv)\<rparr>"

definition resolver_ran :: "driver \<Rightarrow> bool \<Rightarrow> bool \<Rightarrow> bool \<Rightarrow> bool" where
  "resolver_ran drv late1 late2 late3 =
     (\<not> late1 \<and> \<not> late2 \<and> extract_all_defendants_fast drv \<noteq> [] \<and>
      find_main_defendant (extract_all_defendants_fast drv) \<noteq> ''No defendants found'' \<and> \<not> late3)"

section \<open>Cursors\<close>

text \<open>The character before the cursor once \<open>xs\<close> has been consumed from a cursor after \<open>p\<close>.\<close>

definition last_or :: "char option \<Rightarrow> string \<Rightarrow> char option" where
  "last_or p xs = (if xs = [] then p else Some (last xs))"

section \<open>The form of a case number, in the words of the specification\<close>

text \<open>Two digits, two capital letters, then one or more digits and nothing else.\<close>

definition is_upper :: "char \<Rightarrow> bool" where
  "is_upper c = (code CHR ''A'' \<le> code c \<and> code c \<le> code CHR ''Z'')"

definition case_form :: "string \<Rightarrow> bool" where
  "case_form c =
     (length c > 4 \<and> list_all is_digit (take 2 c) \<and> list_all is_upper (take 2 (drop 2 c)) \<and>
      list_all is_digit (drop 4 c))"

section \<open>The attorney address, in the words of the specification\<close>

text \<open>
  The lines of a text are the pieces between its line breaks. A telephone number has the
  form \<open>(DDD) DDD-DDDD\<close>: an optional opening parenthesis, three digits, an optional
  closing parenthesis, an optional separator (a hyphen, a dot or a whitespace character),
  three digits, an optional separator and four digits. \<open>phone_at s i t\<close> says that the
  substring \<open>t\<close> of \<open>s\<close> that starts at index \<open>i\<close> has this form.
\<close>

definition str_lines :: "string \<Rightarrow> string list" where
  "str_lines s = str_split_chr CHR 0x0A s"

definition is_sep :: "char \<Rightarrow> bool" where
  "is_sep c = (c = CHR ''-'' \<or> c = CHR ''.'' \<or> is_space c)"

definition digits :: "nat \<Rightarrow> string \<Rightarrow> bool" where
  "digits n t = (length t = n \<and> list_all is_digit t)"

definition opt_of :: "(char \<Rightarrow> bool) \<Rightarrow> string \<Rightarrow> bool" where
  "opt_of P t = (t = [] \<or> (\<exists>c. t = [c] \<and> P c))"

definition phone_form :: "string \<Rightarrow> bool" where
  "phone_form t =
     (\<exists>a b c d e f g. t = a @ b @ c @ d @ e @ f @ g \<and>
        opt_of (\<lambda>x. x = CHR ''('') a \<and> digits 3 b \<and> opt_of (\<lambda>x. x = CHR '')'') c \<and>
        opt_of is_sep d \<and> digits 3 e \<and> opt_of is_sep f \<and> digits 4 g)"

definition phone_at :: "string \<Rightarrow> nat \<Rightarrow> string \<Rightarrow> bool" where
  "phone_at s i t = (i \<le> length s \<and> phone_form t \<and> take (length t) (drop i s) = t)"

text \<open>
  The same form read from left to right: \<open>skip_opt\<close> passes over one optional character,
  \<open>eat\<close> over a fixed number of digits, and \<open>phone_rest\<close> gives what follows a telephone
  number at the start of a string.
\<close>

fun skip_opt :: "(char \<Rightarrow> bool) \<Rightarrow> string \<Rightarrow> string" where
  "skip_opt P [] = []"
| "skip_opt P (c # cs) = (if P c then cs else c # cs)"

fun skip_prev :: "(char \<Rightarrow> bool) \<Rightarrow> char option \<Rightarrow> string \<Rightarrow> char option" where
  "skip_prev P p [] = p"
| "skip_prev P p (c # cs) = (if P c then Some c else p)"

definition eat :: "nat \<Rightarrow> string \<Rightarrow> string option" where
  "eat n s = (if n \<le> length s \<and> list_all is_digit (take n s) then Some (drop n s) else None)"

definition phone_rest :: "string \<Rightarrow> string option" where
  "phone_rest s =
     (case eat 3 (skip_opt (\<lambda>x. x = CHR ''('') s) of
        None \<Rightarrow> None
      | Some s1 \<Rightarrow>
          (case eat 3 (skip_opt is_sep (skip_opt (\<lambda>x. x = CHR '')'') s1)) of
             None \<Rightarrow> None
           | Some s2 \<Rightarrow> eat 4 (skip_opt is_sep s2)))"

section \<open>Auxiliary notions for the search\<close>

text \<open>
  \<open>found_at\<close>: the search from a cursor after \<open>p\<close> in \<open>s\<close> finds its first match at the
  split \<open>pre @ u\<close>, with matched text \<open>m\<close> and groups \<open>g\<close>. The tails of the telephone
  pattern name its parts from the right.
\<close>

definition found_at ::
  "bool \<Rightarrow> rx \<Rightarrow> char option \<Rightarrow> string \<Rightarrow> string \<Rightarrow> string list \<Rightarrow> string \<Rightarrow> string \<Rightarrow> bool" where
  "found_at ic r p s m g pre u =
     (s = pre @ u \<and>
      (\<forall>pre' u'. s = pre' @ u' \<and> length pre' < length pre \<longrightarrow>
         rmatch ic r (last_or p pre', u', []) = []) \<and>
      (\<exists>p' s' xs. rmatch ic r (last_or p pre, u, []) = (p', s', g) # xs \<and>
         m = take (length u - length s') u))"

definition tail4 :: rx where
  "tail4 = rep 4 (One (In [Digit]))"

definition tail3 :: rx where
  "tail3 = Seq phone_sep tail4"

definition tail2 :: rx where
  "tail2 = Seq (rep 3 (One (In [Digit]))) tail3"

definition tail1 :: rx where
  "tail1 = Seq phone_sep tail2"

definition tail0 :: rx where
  "tail0 = Seq (Opt (chr CHR '')'')) tail1"

section \<open>The classifier, in the words of the specification\<close>

text \<open>
  A lexical cue matches a name when one of the patterns of the catalogue is found in it,
  ignoring case. A word stands as a whole word between \<open>pre\<close> and \<open>post\<close> when no
  letter, digit or underscore touches it on either side.
\<close>

definition cue_matches :: "string \<Rightarrow> bool" where
  "cue_matches name = list_ex (\<lambda>p. re_search True p name \<noteq> None) company_patterns"

definition whole_word :: "string \<Rightarrow> string \<Rightarrow> bool" where
  "whole_word pre post = ((pre = [] \<or> \<not> is_word (last pre)) \<and> (post = [] \<or> \<not> is_word (hd post)))"

section \<open>Classifications of some names, by evaluation\<close>

lemma ic_abc_bank: "is_company ''ABC Bank''"
  by code_simp

lemma ic_jane_smith: "\<not> is_company ''Jane Smith''"
  by code_simp

section \<open>The resolver: results and trace of the scans\<close>

lemma served_name_get: "dict_get d ''service_name'' '''' = served_name d"
  by (simp add: dict_get_def served_name_def)

lemma name_matches_spec:
  "name_matches md d = (ci_contains (served_name d) md \<or> ci_contains md (served_name d))"
  by (auto simp: name_matches_def ci_contains_def served_name_get Let_def)

lemma is_human_spec:
  "is_human d = (served_name d \<noteq> [] \<and> \<not> is_company (served_name d))"
  by (simp add: is_human_def served_name_get Let_def)

lemma readable_Nil [simp]: "readable m [] = []"
  by (simp add: readable_def)

lemma readable_Cons:
  "readable m (row # rows) =
     (case read_details row m of None \<Rightarrow> readable m rows | Some d \<Rightarrow> d # readable m rows)"
  by (simp add: readable_def split: option.splits)

lemma readable_append: "readable m (xs @ ys) = readable m xs @ readable m ys"
  by (simp add: readable_def)

lemma scan_main_result:
  "fst (scan_main drv md m rows) = primary_phase md (readable m (map snd rows))"
proof (induction rows arbitrary: drv)
  case Nil
  show ?case by (simp add: primary_phase_def)
next
  case (Cons row rows)
  show ?case
  proof (cases "read_details (snd row) m")
    case None
    then show ?thesis
      using Cons.IH by (simp add: extract_service_details_fast_def readable_Cons)
  next
    case (Some d)
    then show ?thesis
      using Cons.IH
      by (simp add: extract_service_details_fast_def readable_Cons primary_phase_def name_matches_spec)
  qed
qed

lemma scan_human_result:
  "fst (scan_human drv m rows) = fallback_phase (readable m (map snd rows))"
proof (induction rows arbitrary: drv)
  case Nil
  show ?case by (simp add: fallback_phase_def)
next
  case (Cons row rows)
  show ?case
  proof (cases "read_details (snd row) m")
    case None
    then show ?thesis
      using Cons.IH by (simp add: extract_service_details_fast_def readable_Cons)
  next
    case (Some d)
    then show ?thesis
      using Cons.IH
      by (simp add: extract_service_details_fast_def readable_Cons fallback_phase_def is_human_spec)
  qed
qed

lemma scan_main_trace:
  "\<exists>k. snd (scan_main drv md m rows) =
         drv\<lparr>inspected := inspected drv @ map (\<lambda>r. (m, fst r)) (take k rows)\<rparr>"
proof (induction rows arbitrary: drv)
  case Nil
  show ?case by simp
next
  case (Cons row rows)
  let ?drv1 = "drv\<lparr>inspected := inspected drv @ [(m, fst row)]\<rparr>"
  from Cons.IH [of ?drv1] obtain k where
    k: "snd (scan_main ?drv1 md m rows) =
          ?drv1\<lparr>inspected := inspected ?drv1 @ map (\<lambda>r. (m, fst r)) (take k rows)\<rparr>"
    by blast
  show ?case
  proof (cases "read_details (snd row) m")
    case None
    with k have "snd (scan_main drv md m (row # rows)) =
        drv\<lparr>inspected := inspected drv @ map (\<lambda>r. (m, fst r)) (take (Suc k) (row # rows))\<rparr>"
      by (simp add: extract_service_details_fast_def)
    then show ?thesis by blast
  next
    case (Some d)
    show ?thesis
    proof (cases "name_matches md d")
      case True
      with Some have "snd (scan_main drv md m (row # rows)) =
          drv\<lparr>inspected := inspected drv @ map (\<lambda>r. (m, fst r)) (take (Suc 0) (row # rows))\<rparr>"
        by (simp add: extract_service_details_fast_def)
      then show ?thesis by blast
    next
      case False
      with Some k have "snd (scan_main drv md m (row # rows)) =
          drv\<lparr>inspected := inspected drv @ map (\<lambda>r. (m, fst r)) (take (Suc k) (row # rows))\<rparr>"
        by (simp add: extract_service_details_fast_def)
      then show ?thesis by blast
    qed
  qed
qed

lemma scan_human_trace:
  "\<exists>k. snd (scan_human drv m rows) =
         drv\<lparr>inspected := inspected drv @ map (\<lambda>r. (m, fst r)) (take k rows)\<rparr>"
proof (induction rows arbitrary: drv)
  case Nil
  show ?case by simp
next
  case (Cons row rows)
  let ?drv1 = "drv\<lparr>inspected := inspected drv @ [(m, fst row)]\<rparr>"
  from Cons.IH [of ?drv1] obtain k where
    k: "snd (scan_human ?drv1 m rows) =
          ?drv1\<lparr>inspected := inspected ?drv1 @ map (\<lambda>r. (m, fst r)) (take k rows)\<rparr>"
    by blast
  show ?case
  proof (cases "read_details (snd row) m")
    case None
    with k have "snd (scan_human drv m (row # rows)) =
        drv\<lparr>inspected := inspected drv @ map (\<lambda>r. (m, fst r)) (take (Suc k) (row # rows))\<rparr>"
      by (simp add: extract_service_details_fast_def)
    then show ?thesis by blast
  next
    case (Some d)
    show ?thesis
    proof (cases "is_human d")
      case True
      with Some have "snd (scan_human drv m (row # rows)) =
          drv\<lparr>inspected := inspected drv @ map (\<lambda>r. (m, fst r)) (take (Suc 0) (row # rows))\<rparr>"
        by (simp add: extract_service_details_fast_def)
      then show ?thesis by blast
    next
      case False
      with Some k have "snd (scan_human drv m (row # rows)) =
          drv\<lparr>inspected := inspected drv @ map (\<lambda>r. (m, fst r)) (take (Suc k) (row # rows))\<rparr>"
        by (simp add: extract_service_details_fast_def)
      then show ?thesis by blast
    qed
  qed
qed

lemma map_snd_enumerate: "map snd (enumerate n xs) = xs"
  by (simp add: enumerate_eq_zip)

lemma extract_docket [simp]:
  "docket (snd (extract_service_details_fast drv row m)) = docket drv"
  by (simp add: extract_service_details_fast_def)

lemma scan_main_docket [simp]: "docket (snd (scan_main drv md m rows)) = docket drv"
proof -
  from scan_main_trace [of drv md m rows] obtain k where
    "snd (scan_main drv md m rows) =
       drv\<lparr>inspected := inspected drv @ map (\<lambda>r. (m, fst r)) (take k rows)\<rparr>" by blast
  then show ?thesis by simp
qed

lemma scan_human_docket [simp]: "docket (snd (scan_human drv m rows)) = docket drv"
proof -
  from scan_human_trace [of drv m rows] obtain k where
    "snd (scan_human drv m rows) =
       drv\<lparr>inspected := inspected drv @ map (\<lambda>r. (m, fst r)) (take k rows)\<rparr>" by blast
  then show ?thesis by simp
qed

lemma search_types_step:
  assumes "docket drv m = Some rows"
  shows "\<exists>drv'. docket drv' = docket drv \<and>
           fst (search_types drv md (m # ms)) =
             (case two_phase md (readable m (take 5 rows)) of
                Some d \<Rightarrow> Some d
              | None \<Rightarrow> fst (search_types drv' md ms))"
proof (cases "rows = []")
  case True
  with assms show ?thesis
    by (auto simp: two_phase_def primary_phase_def fallback_phase_def intro!: exI [of _ drv])
next
  case False
  let ?cs = "enumerate 0 (take 5 rows)"
  obtain r1 d1 where s1: "scan_main drv md m ?cs = (r1, d1)" by (cases "scan_main drv md m ?cs")
  obtain r2 d2 where s2: "scan_human d1 m ?cs = (r2, d2)" by (cases "scan_human d1 m ?cs")
  have r1: "r1 = primary_phase md (readable m (take 5 rows))"
    using scan_main_result [of drv md m ?cs] s1 by (simp add: map_snd_enumerate)
  have r2: "r2 = fallback_phase (readable m (take 5 rows))"
    using scan_human_result [of d1 m ?cs] s2 by (simp add: map_snd_enumerate)
  have k1: "docket d1 = docket drv" using scan_main_docket [of drv md m ?cs] s1 by simp
  have k2: "docket d2 = docket drv" using scan_human_docket [of d1 m ?cs] s2 k1 by simp
  have "fst (search_types drv md (m # ms)) =
          (case two_phase md (readable m (take 5 rows)) of
             Some d \<Rightarrow> Some d
           | None \<Rightarrow> fst (search_types d2 md ms))"
    using assms False s1 s2 r1 r2 by (simp add: two_phase_def split: option.splits)
  with k2 show ?thesis by blast
qed

lemma resolver_result:
  "fst (find_proof_of_service_fast drv md) = resolve_service drv md"
proof (cases "docket drv ''CERTIFIED MAIL''")
  case None
  then show ?thesis
    by (simp add: find_proof_of_service_fast_def service_types_def resolve_service_def)
next
  case (Some rows1)
  from search_types_step [OF Some, of md "[''PROCESS SERVER'']"] obtain drv' where
    d: "docket drv' = docket drv" and
    e: "fst (search_types drv md [''CERTIFIED MAIL'', ''PROCESS SERVER'']) =
          (case two_phase md (readable ''CERTIFIED MAIL'' (take 5 rows1)) of
             Some d \<Rightarrow> Some d
           | None \<Rightarrow> fst (search_types drv' md [''PROCESS SERVER'']))"
    by blast
  have "fst (search_types drv' md [''PROCESS SERVER'']) =
          (case docket drv ''PROCESS SERVER'' of
             None \<Rightarrow> None
           | Some rows2 \<Rightarrow> two_phase md (readable ''PROCESS SERVER'' (take 5 rows2)))"
  proof (cases "docket drv ''PROCESS SERVER''")
    case None
    with d show ?thesis by simp
  next
    case (Some rows2)
    with d have "docket drv' ''PROCESS SERVER'' = Some rows2" by simp
    from search_types_step [OF this, of md "[]"] Some show ?thesis
      by (auto split: option.splits)
  qed
  with e Some show ?thesis
    by (simp add: find_proof_of_service_fast_def service_types_def resolve_service_def
             del: search_types.simps split: option.splits)
qed

lemma find_first:
  "List.find P cs = Some d \<longleftrightarrow> (\<exists>pre post. cs = pre @ d # post \<and> P d \<and> (\<forall>e\<in>set pre. \<not> P e))"
proof (induction cs)
  case Nil
  show ?case by simp
next
  case (Cons x xs)
  show ?case
  proof (cases "P x")
    case True
    have "(\<exists>pre post. x # xs = pre @ d # post \<and> P d \<and> (\<forall>e\<in>set pre. \<not> P e)) \<longleftrightarrow> x = d"
    proof
      assume "\<exists>pre post. x # xs = pre @ d # post \<and> P d \<and> (\<forall>e\<in>set pre. \<not> P e)"
      then obtain pre post where h: "x # xs = pre @ d # post" "\<forall>e\<in>set pre. \<not> P e" by blast
      show "x = d"
      proof (cases pre)
        case Nil
        with h show ?thesis by simp
      next
        case (Cons y ys)
        with h True show ?thesis by auto
      qed
    next
      assume "x = d"
      with True have "x # xs = [] @ d # xs \<and> P d \<and> (\<forall>e\<in>set []. \<not> P e)" by simp
      then show "\<exists>pre post. x # xs = pre @ d # post \<and> P d \<and> (\<forall>e\<in>set pre. \<not> P e)" by blast
    qed
    with True show ?thesis by simp
  next
    case False
    have "(\<exists>pre post. x # xs = pre @ d # post \<and> P d \<and> (\<forall>e\<in>set pre. \<not> P e)) \<longleftrightarrow>
          (\<exists>pre post. xs = pre @ d # post \<and> P d \<and> (\<forall>e\<in>set pre. \<not> P e))"
    proof
      assume "\<exists>pre post. x # xs = pre @ d # post \<and> P d \<and> (\<forall>e\<in>set pre. \<not> P e)"
      then obtain pre post where h: "x # xs = pre @ d # post" "P d" "\<forall>e\<in>set pre. \<not> P e" by blast
      show "\<exists>pre post. xs = pre @ d # post \<and> P d \<and> (\<forall>e\<in>set pre. \<not> P e)"
      proof (cases pre)
        case Nil
        with h False show ?thesis by simp
      next
        case (Cons y ys)
        with h have "xs = ys @ d # post \<and> P d \<and> (\<forall>e\<in>set ys. \<not> P e)" by simp
        then show ?thesis by blast
      qed
    next
      assume "\<exists>pre post. xs = pre @ d # post \<and> P d \<and> (\<forall>e\<in>set pre. \<not> P e)"
      then obtain pre post where "xs = pre @ d # post" "P d" "\<forall>e\<in>set pre. \<not> P e" by blast
      with False have "x # xs = (x # pre) @ d # post \<and> P d \<and> (\<forall>e\<in>set (x # pre). \<not> P e)"
        by simp
      then show "\<exists>pre post. x # xs = pre @ d # post \<and> P d \<and> (\<forall>e\<in>set pre. \<not> P e)" by blast
    qed
    with False Cons.IH show ?thesis by simp
  qed
qed

lemma enumerate_index_bound:
  "r \<in> set (enumerate 0 (take 5 rows)) \<Longrightarrow> fst r < 5"
  by (cases r) (auto simp: in_set_enumerate_eq)

lemma scan_main_trace_bound:
  "\<exists>t. snd (scan_main drv md m (enumerate 0 (take 5 rows))) = drv\<lparr>inspected := inspected drv @ t\<rparr> \<and>
       (\<forall>e\<in>set t. fst e = m \<and> snd e < 5)"
proof -
  let ?cs = "enumerate 0 (take 5 rows)"
  from scan_main_trace [of drv md m ?cs] obtain k where
    k: "snd (scan_main drv md m ?cs) =
       drv\<lparr>inspected := inspected drv @ map (\<lambda>r. (m, fst r)) (take k ?cs)\<rparr>" by blast
  have "\<forall>e\<in>set (map (\<lambda>r. (m, fst r)) (take k ?cs)). fst e = m \<and> snd e < 5"
    using enumerate_index_bound [of _ rows] by (auto dest!: in_set_takeD)
  with k show ?thesis by blast
qed

lemma scan_human_trace_bound:
  "\<exists>t. snd (scan_human drv m (enumerate 0 (take 5 rows))) = drv\<lparr>inspected := inspected drv @ t\<rparr> \<and>
       (\<forall>e\<in>set t. fst e = m \<and> snd e < 5)"
proof -
  let ?cs = "enumerate 0 (take 5 rows)"
  from scan_human_trace [of drv m ?cs] obtain k where
    k: "snd (scan_human drv m ?cs) =
       drv\<lparr>inspected := inspected drv @ map (\<lambda>r. (m, fst r)) (take k ?cs)\<rparr>" by blast
  have "\<forall>e\<in>set (map (\<lambda>r. (m, fst r)) (take k ?cs)). fst e = m \<and> snd e < 5"
    using enumerate_index_bound [of _ rows] by (auto dest!: in_set_takeD)
  with k show ?thesis by blast
qed

lemma search_types_trace_step:
  "\<exists>t drv'. (\<forall>e\<in>set t. fst e = m \<and> snd e < 5) \<and> drv' = drv\<lparr>inspected := inspected drv @ t\<rparr> \<and>
      (snd (search_types drv md (m # ms)) = drv' \<or>
       snd (search_types drv md (m # ms)) = snd (search_types drv' md ms))"
proof (cases "docket drv m")
  case None
  then have "snd (search_types drv md (m # ms)) = drv\<lparr>inspected := inspected drv @ []\<rparr>"
    by simp
  then show ?thesis by (intro exI [of _ "[]"]) simp
next
  case (Some rows)
  show ?thesis
  proof (cases "rows = []")
    case True
    with Some have "snd (search_types drv md (m # ms)) =
        snd (search_types (drv\<lparr>inspected := inspected drv @ []\<rparr>) md ms)"
      by simp
    then show ?thesis by (intro exI [of _ "[]"]) simp
  next
    case False
    let ?cs = "enumerate 0 (take 5 rows)"
    obtain r1 d1 where s1: "scan_main drv md m ?cs = (r1, d1)" by (cases "scan_main drv md m ?cs")
    obtain r2 d2 where s2: "scan_human d1 m ?cs = (r2, d2)" by (cases "scan_human d1 m ?cs")
    from scan_main_trace_bound [of drv md m rows] s1 obtain t1 where
      t1: "d1 = drv\<lparr>inspected := inspected drv @ t1\<rparr>" "\<forall>e\<in>set t1. fst e = m \<and> snd e < 5"
      by auto
    from scan_human_trace_bound [of d1 m rows] s2 obtain t2 where
      t2: "d2 = d1\<lparr>inspected := inspected d1 @ t2\<rparr>" "\<forall>e\<in>set t2. fst e = m \<and> snd e < 5"
      by auto
    have d2: "d2 = drv\<lparr>inspected := inspected drv @ (t1 @ t2)\<rparr>"
      using t1(1) t2(1) by simp
    have b12: "\<forall>e\<in>set (t1 @ t2). fst e = m \<and> snd e < 5"
      using t1(2) t2(2) by auto
    show ?thesis
    proof (cases r1)
      case (Some d)
      with \<open>docket drv m = Some rows\<close> False s1
      have "snd (search_types drv md (m # ms)) = d1" by simp
      with t1 show ?thesis by blast
    next
      case None
      show ?thesis
      proof (cases r2)
        case (Some d)
        with None \<open>docket drv m = Some rows\<close> False s1 s2
        have "snd (search_types drv md (m # ms)) = d2" by simp
        with d2 b12 show ?thesis by blast
      next
        case n2: None
        with None \<open>docket drv m = Some rows\<close> False s1 s2
        have "snd (search_types drv md (m # ms)) = snd (search_types d2 md ms)" by simp
        with d2 b12 show ?thesis by blast
      qed
    qed
  qed
qed

lemma resolver_trace:
  "\<exists>t1 t2. inspected (snd (find_proof_of_service_fast drv md)) = inspected drv @ t1 @ t2 \<and>
     (\<forall>e\<in>set t1. fst e = ''CERTIFIED MAIL'' \<and> snd e < 5) \<and>
     (\<forall>e\<in>set t2. fst e = ''PROCESS SERVER'' \<and> snd e < 5)"
proof -
  from search_types_trace_step [of "''CERTIFIED MAIL''" drv md "[''PROCESS SERVER'']"]
  obtain t1 drv1 where
    b1: "\<forall>e\<in>set t1. fst e = ''CERTIFIED MAIL'' \<and> snd e < 5" and
    d1: "drv1 = drv\<lparr>inspected := inspected drv @ t1\<rparr>" and
    c1: "snd (search_types drv md [''CERTIFIED MAIL'', ''PROCESS SERVER'']) = drv1 \<or>
         snd (search_types drv md [''CERTIFIED MAIL'', ''PROCESS SERVER'']) =
           snd (search_types drv1 md [''PROCESS SERVER''])"
    by blast
  from search_types_trace_step [of "''PROCESS SERVER''" drv1 md "[]"]
  obtain t2 drv2 where
    b2: "\<forall>e\<in>set t2. fst e = ''PROCESS SERVER'' \<and> snd e < 5" and
    d2: "drv2 = drv1\<lparr>inspected := inspected drv1 @ t2\<rparr>" and
    c2: "snd (search_types drv1 md [''PROCESS SERVER'']) = drv2"
    by auto
  from c1 show ?thesis
  proof
    assume "snd (search_types drv md [''CERTIFIED MAIL'', ''PROCESS SERVER'']) = drv1"
    with d1 have "inspected (snd (find_proof_of_service_fast drv md)) = inspected drv @ t1 @ []"
      by (simp add: find_proof_of_service_fast_def service_types_def del: search_types.simps)
    with b1 show ?thesis by (intro exI [of _ t1] exI [of _ "[]"]) simp
  next
    assume "snd (search_types drv md [''CERTIFIED MAIL'', ''PROCESS SERVER'']) =
           snd (search_types drv1 md [''PROCESS SERVER''])"
    with c2 d2 d1
    have "inspected (snd (find_proof_of_service_fast drv md)) = inspected drv @ t1 @ t2"
      by (simp add: find_proof_of_service_fast_def service_types_def del: search_types.simps)
    with b1 b2 show ?thesis by blast
  qed
qed

lemma resolve_service_take5:
  "resolve_service (drv\<lparr>docket := \<lambda>m. map_option (take 5) (docket drv m)\<rparr>) md = resolve_service drv md"
  by (auto simp: resolve_service_def split: option.splits)

lemma str_in_Nil [simp]: "str_in [] s"
  by (cases s) simp_all

lemma scan_main_skip:
  "read_details (snd row) m = None \<Longrightarrow>
   scan_main drv md m (row # rows) =
     scan_main (drv\<lparr>inspected := inspected drv @ [(m, fst row)]\<rparr>) md m rows"
  by (simp add: extract_service_details_fast_def)

lemma scan_human_skip:
  "read_details (snd row) m = None \<Longrightarrow>
   scan_human drv m (row # rows) =
     scan_human (drv\<lparr>inspected := inspected drv @ [(m, fst row)]\<rparr>) m rows"
  by (simp add: extract_service_details_fast_def)

lemma scan_main_unread:
  "read_details (snd row) m = None \<Longrightarrow>
   fst (scan_main drv md m (pre @ row # post)) = fst (scan_main drv md m (pre @ post))"
  by (simp add: scan_main_result readable_append readable_Cons)

lemma scan_human_unread:
  "read_details (snd row) m = None \<Longrightarrow>
   fst (scan_human drv m (pre @ row # post)) = fst (scan_human drv m (pre @ post))"
  by (simp add: scan_human_result readable_append readable_Cons)

lemma nameless_matches:
  "d ''service_name'' = None \<or> d ''service_name'' = Some [] \<Longrightarrow> name_matches md d"
  by (auto simp: name_matches_def dict_get_def Let_def str_lower_def)

lemma primary_phase_first:
  assumes "ci_contains (served_name d) md \<or> ci_contains md (served_name d)"
    and "\<forall>d'\<in>set pre. \<not> (ci_contains (served_name d') md \<or> ci_contains md (served_name d'))"
  shows "primary_phase md (pre @ d # post) = Some d"
  using assms by (induction pre) (auto simp: primary_phase_def)

lemma resolver_nameless_first:
  assumes dk: "docket drv ''CERTIFIED MAIL'' = Some (pre @ row # post)"
    and len: "length pre < 5"
    and rd: "read_details row ''CERTIFIED MAIL'' = Some d"
    and nm: "name_matches md d"
    and others: "\<forall>r\<in>set pre. \<forall>d'. read_details r ''CERTIFIED MAIL'' = Some d' \<longrightarrow> \<not> name_matches md d'"
  shows "fst (find_proof_of_service_fast drv md) = Some d"
proof -
  have t: "take 5 (pre @ row # post) = pre @ row # take (4 - length pre) post"
  proof -
    from len obtain k where k: "5 - length pre = Suc k" "4 - length pre = k"
      by (cases "5 - length pre") auto
    then show ?thesis by simp
  qed
  have "\<forall>d'\<in>set (readable ''CERTIFIED MAIL'' pre).
          \<not> (ci_contains (served_name d') md \<or> ci_contains md (served_name d'))"
    using others by (induction pre) (auto simp: readable_Cons name_matches_spec split: option.splits)
  with nm have "primary_phase md (readable ''CERTIFIED MAIL'' pre @ d #
      readable ''CERTIFIED MAIL'' (take (4 - length pre) post)) = Some d"
    by (simp add: primary_phase_first name_matches_spec)
  with rd t have "two_phase md (readable ''CERTIFIED MAIL'' (take 5 (pre @ row # post))) = Some d"
    by (simp add: two_phase_def readable_append readable_Cons)
  with dk show ?thesis
    by (simp add: resolver_result resolve_service_def)
qed

section \<open>The record of a case, by cases\<close>

lemma add_detail_keeps: "k \<in> dom d \<Longrightarrow> k \<in> dom (add_detail d cells)"
  by (auto simp: add_detail_def Let_def)

lemma foldl_add_detail_keeps: "k \<in> dom d \<Longrightarrow> k \<in> dom (foldl add_detail d rows)"
proof (induction rows arbitrary: d)
  case Nil
  then show ?case by simp
next
  case (Cons cells rows)
  from Cons.prems have "k \<in> dom (add_detail d cells)" by (rule add_detail_keeps)
  then show ?case using Cons.IH by simp
qed

lemma read_details_method:
  assumes "read_details row m = Some d"
  shows "''service_delivery_method'' \<in> dom d"
proof -
  from assms obtain rows where
    "d = foldl add_detail [''service_delivery_method'' \<mapsto> m] rows"
    by (auto simp: read_details_def Let_def split: option.splits if_splits)
  moreover have "''service_delivery_method'' \<in> dom [''service_delivery_method'' \<mapsto> m]"
    by simp
  ultimately show ?thesis using foldl_add_detail_keeps by blast
qed

lemma readable_method:
  "d \<in> set (readable m rows) \<Longrightarrow> ''service_delivery_method'' \<in> dom d"
proof (induction rows)
  case Nil
  then show ?case by simp
next
  case (Cons row rows)
  then show ?case
    using read_details_method [of row m d]
    by (cases "read_details row m") (auto simp: readable_Cons)
qed

lemma two_phase_in: "two_phase md cs = Some d \<Longrightarrow> d \<in> set cs"
  by (auto simp: two_phase_def primary_phase_def fallback_phase_def find_Some_iff
           split: option.splits)

lemma resolve_service_method:
  "resolve_service drv md = Some d \<Longrightarrow> ''service_delivery_method'' \<in> dom d"
  by (auto simp: resolve_service_def split: option.splits dest!: two_phase_in readable_method)

lemma resolve_service_nonempty: "resolve_service drv md = Some d \<Longrightarrow> d \<noteq> Map.empty"
  using resolve_service_method [of drv md d] by auto

lemma extract_ran:
  assumes "resolver_ran drv late1 late2 late3"
  shows "fst (extract_attorney_data drv late1 late2 late3) =
           (case fst (find_proof_of_service_fast drv (find_main_defendant (extract_all_defendants_fast drv))) of
              Some d \<Rightarrow> map_service (find_main_defendant (extract_all_defendants_fast drv)) d (scraped drv)
            | None \<Rightarrow> (scraped drv)\<lparr>extraction_status := ''No Service Records Found''\<rparr>)"
proof -
  let ?md = "find_main_defendant (extract_all_defendants_fast drv)"
  obtain r drv' where f: "find_proof_of_service_fast drv ?md = (r, drv')"
    by (cases "find_proof_of_service_fast drv ?md")
  then have r: "r = resolve_service drv ?md" using resolver_result [of drv ?md] by simp
  show ?thesis
  proof (cases r)
    case None
    with f assms show ?thesis
      by (simp add: extract_attorney_data_def resolver_ran_def scraped_def Let_def)
  next
    case (Some d)
    with r have "d \<noteq> Map.empty" using resolve_service_nonempty [of drv ?md d] by simp
    with Some f assms show ?thesis
      by (simp add: extract_attorney_data_def resolver_ran_def scraped_def Let_def)
  qed
qed

lemma extract_not_ran:
  assumes "\<not> resolver_ran drv late1 late2 late3"
  shows "extraction_status (fst (extract_attorney_data drv late1 late2 late3)) \<in>
           {''Timeout - Overall Process'', ''Timeout - After Defendants'', ''No Defendants Found'',
            ''Timeout - Before Service Search''} \<and>
         service_match (fst (extract_attorney_data drv late1 late2 late3)) = [] \<and>
         attorney_name (fst (extract_attorney_data drv late1 late2 late3)) = []"
  using assms
  by (auto simp: extract_attorney_data_def resolver_ran_def Let_def initial_attorney_data_def)

lemma parse_address_keeps:
  "attorney_name (parse_address x a) = attorney_name a"
  "service_match (parse_address x a) = service_match a"
  "extraction_status (parse_address x a) = extraction_status a"
  by (simp_all add: parse_address_def Let_def split: option.splits prod.splits)

lemma map_service_fields:
  "extraction_status (map_service md d a) = ''Found''"
  "attorney_name (map_service md d a) = dict_get d ''service_attorney_name'' ''''"
  "service_match (map_service md d a) =
     (if ci_contains md (served_name d) \<or> ci_contains (served_name d) md
      then ''Main Defendant'' else ''Other Human Defendant'')"
  by (simp_all add: map_service_def Let_def parse_address_keeps ci_contains_def served_name_get)

lemma scraped_fields:
  "attorney_name (scraped drv) = []" "attorney_firm (scraped drv) = []"
  "attorney_address (scraped drv) = []" "attorney_phone (scraped drv) = []"
  "service_match (scraped drv) = []"
  by (simp_all add: scraped_def initial_attorney_data_def)

section \<open>Evaluation on the example pages\<close>

lemma char_eq_char_of: "(c = char_of (n::nat)) = (take_bit 8 n = of_char c)"
  using char_of_eq_iff [of n c] by auto

lemmas str_eval = str_strip_def str_lstrip_def str_rstrip_def str_rstrip_chr_def str_lower_def
  str_replace_chr_def lower_char_def code_def is_space_def char_of_eq_iff char_eq_char_of

lemmas page_eval = page_def detail_row_def broken_row_def bank_row_def smith_row_def
  nameless_row_def no_attorney_row_def junior_row_def read_details_def add_detail_def Let_def

lemmas resolve_eval = resolve_service_def two_phase_def primary_phase_def fallback_phase_def
  readable_def served_name_def ci_contains_def

lemma defendants_of_page:
  "extract_all_defendants_fast (page [''Jane Smith''] c s) = [''Jane Smith'']"
  by (simp add: extract_all_defendants_fast_def page_def str_eval)

lemma main_of_jane: "find_main_defendant [''Jane Smith''] = ''Jane Smith''"
  by (simp add: find_main_defendant_def ic_jane_smith)

lemma ran_page: "resolver_ran (page [''Jane Smith''] c s) False False False"
  by (simp add: resolver_ran_def defendants_of_page main_of_jane)

text \<open>The rows that the scans and the resolver inspect.\<close>

lemma upto_first_split:
  "P x \<Longrightarrow> \<forall>y\<in>set pre. \<not> P y \<Longrightarrow> upto_first P (pre @ x # post) = pre @ [x]"
  by (induction pre) simp_all

lemma upto_first_none: "\<forall>y\<in>set xs. \<not> P y \<Longrightarrow> upto_first P xs = xs"
  by (induction xs) simp_all

lemma find_readable:
  "List.find test (readable m rows) = None \<longleftrightarrow> \<not> list_ex (passes test m) rows"
  by (induction rows) (simp_all add: readable_Cons passes_def split: option.splits)

lemma primary_phase_test: "primary_phase md cs = List.find (primary_test md) cs"
  by (simp add: primary_phase_def primary_test_def [abs_def])

lemma fallback_phase_test: "fallback_phase cs = List.find fallback_test cs"
  by (simp add: fallback_phase_def fallback_test_def [abs_def])

lemma scan_main_full:
  "scan_main drv md m rows =
     (primary_phase md (readable m (map snd rows)),
      drv\<lparr>inspected := inspected drv @
        map (\<lambda>r. (m, fst r)) (upto_first (\<lambda>r. passes (primary_test md) m (snd r)) rows)\<rparr>)"
proof (induction rows arbitrary: drv)
  case Nil
  show ?case by (simp add: primary_phase_def)
next
  case (Cons row rows)
  show ?case
  proof (cases "read_details (snd row) m")
    case None
    then show ?thesis
      using Cons.IH
      by (simp add: extract_service_details_fast_def readable_Cons passes_def)
  next
    case (Some d)
    then show ?thesis
      using Cons.IH
      by (simp add: extract_service_details_fast_def readable_Cons passes_def primary_phase_def
            primary_test_def name_matches_spec)
  qed
qed

lemma scan_human_full:
  "scan_human drv m rows =
     (fallback_phase (readable m (map snd rows)),
      drv\<lparr>inspected := inspected drv @
        map (\<lambda>r. (m, fst r)) (upto_first (\<lambda>r. passes fallback_test m (snd r)) rows)\<rparr>)"
proof (induction rows arbitrary: drv)
  case Nil
  show ?case by (simp add: fallback_phase_def)
next
  case (Cons row rows)
  show ?case
  proof (cases "read_details (snd row) m")
    case None
    then show ?thesis
      using Cons.IH
      by (simp add: extract_service_details_fast_def readable_Cons passes_def)
  next
    case (Some d)
    then show ?thesis
      using Cons.IH
      by (simp add: extract_service_details_fast_def readable_Cons passes_def fallback_phase_def
            fallback_test_def is_human_spec)
  qed
qed

lemma upto_first_enumerate:
  "map (\<lambda>r. (m, fst r)) (upto_first (\<lambda>r. P (snd r)) (enumerate n rows)) =
     map (\<lambda>i. (m, i)) [n..<n + length (upto_first P rows)]"
proof (induction rows arbitrary: n)
  case Nil
  show ?case by simp
next
  case (Cons row rows)
  from Cons.IH [of "Suc n"] show ?case
    by (simp add: upt_conv_Cons)
qed

lemma phase_rows_enumerate:
  "map (\<lambda>r. (m, fst r)) (upto_first (\<lambda>r. passes test m (snd r)) (enumerate 0 rows)) =
     phase_rows test m rows"
  using upto_first_enumerate [of m "passes test m" 0 rows] by (simp add: phase_rows_def)

lemma search_types_full_step:
  assumes "docket drv m = Some rows"
  shows "search_types drv md (m # ms) =
     (if found_in md m rows
      then (two_phase md (readable m (take 5 rows)),
            drv\<lparr>inspected := inspected drv @ category_rows md m rows\<rparr>)
      else search_types (drv\<lparr>inspected := inspected drv @ category_rows md m rows\<rparr>) md ms)"
proof (cases "rows = []")
  case True
  with assms show ?thesis
    by (simp add: found_in_def category_rows_def phase_rows_def)
next
  case False
  let ?cs = "enumerate 0 (take 5 rows)"
  let ?d1 = "drv\<lparr>inspected := inspected drv @ phase_rows (primary_test md) m (take 5 rows)\<rparr>"
  have s1: "scan_main drv md m ?cs = (primary_phase md (readable m (take 5 rows)), ?d1)"
    by (simp only: scan_main_full map_snd_enumerate phase_rows_enumerate)
  have s2: "scan_human ?d1 m ?cs =
      (fallback_phase (readable m (take 5 rows)),
       ?d1\<lparr>inspected := inspected ?d1 @ phase_rows fallback_test m (take 5 rows)\<rparr>)"
    by (simp only: scan_human_full map_snd_enumerate phase_rows_enumerate)
  have p: "primary_phase md (readable m (take 5 rows)) = None \<longleftrightarrow>
             \<not> list_ex (passes (primary_test md) m) (take 5 rows)"
    by (simp only: primary_phase_test find_readable)
  have f: "fallback_phase (readable m (take 5 rows)) = None \<longleftrightarrow>
             \<not> list_ex (passes fallback_test m) (take 5 rows)"
    by (simp only: fallback_phase_test find_readable)
  show ?thesis
  proof (cases "primary_phase md (readable m (take 5 rows))")
    case (Some d)
    with p have "list_ex (passes (primary_test md) m) (take 5 rows)" by simp
    with assms False s1 Some show ?thesis
      by (simp add: found_in_def category_rows_def two_phase_def)
  next
    case None
    with p have np: "\<not> list_ex (passes (primary_test md) m) (take 5 rows)" by simp
    show ?thesis
    proof (cases "fallback_phase (readable m (take 5 rows))")
      case (Some d)
      with f have "list_ex (passes fallback_test m) (take 5 rows)" by simp
      with assms False s1 s2 None Some np show ?thesis
        by (simp add: found_in_def category_rows_def two_phase_def)
    next
      case n2: None
      with f have "\<not> list_ex (passes fallback_test m) (take 5 rows)" by simp
      with assms False s1 s2 None n2 np show ?thesis
        by (simp add: found_in_def category_rows_def two_phase_def)
    qed
  qed
qed

lemma found_in_two_phase:
  "found_in md m rows \<longleftrightarrow> two_phase md (readable m (take 5 rows)) \<noteq> None"
proof -
  have p: "primary_phase md (readable m (take 5 rows)) = None \<longleftrightarrow>
             \<not> list_ex (passes (primary_test md) m) (take 5 rows)"
    by (simp only: primary_phase_test find_readable)
  have f: "fallback_phase (readable m (take 5 rows)) = None \<longleftrightarrow>
             \<not> list_ex (passes fallback_test m) (take 5 rows)"
    by (simp only: fallback_phase_test find_readable)
  show ?thesis
  proof (cases "primary_phase md (readable m (take 5 rows))")
    case None
    with p f show ?thesis by (simp add: found_in_def two_phase_def)
  next
    case (Some d)
    with p show ?thesis by (simp add: found_in_def two_phase_def)
  qed
qed

lemma resolver_full:
  "find_proof_of_service_fast drv md =
     (resolve_service drv md, drv\<lparr>inspected := inspected drv @ resolve_rows drv md\<rparr>)"
proof (cases "docket drv ''CERTIFIED MAIL''")
  case None
  then show ?thesis
    by (simp add: find_proof_of_service_fast_def service_types_def resolve_service_def
          resolve_rows_def)
next
  case (Some rows1)
  let ?d1 = "drv\<lparr>inspected := inspected drv @ category_rows md ''CERTIFIED MAIL'' rows1\<rparr>"
  note a = search_types_full_step [OF Some, of md "[''PROCESS SERVER'']"]
  note t = found_in_two_phase [of md "''CERTIFIED MAIL''" rows1]
  show ?thesis
  proof (cases "found_in md ''CERTIFIED MAIL'' rows1")
    case True
    with a t Some show ?thesis
      by (auto simp: find_proof_of_service_fast_def service_types_def resolve_service_def
            resolve_rows_def simp del: search_types.simps split: option.splits)
  next
    case False
    with t have n: "two_phase md (readable ''CERTIFIED MAIL'' (take 5 rows1)) = None" by simp
    from a False have b: "search_types drv md [''CERTIFIED MAIL'', ''PROCESS SERVER''] =
        search_types ?d1 md [''PROCESS SERVER'']" by (simp del: search_types.simps)
    show ?thesis
    proof (cases "docket drv ''PROCESS SERVER''")
      case None
      with b Some False n show ?thesis
        by (simp add: find_proof_of_service_fast_def service_types_def resolve_service_def
              resolve_rows_def)
    next
      case s2: (Some rows2)
      then have "docket ?d1 ''PROCESS SERVER'' = Some rows2" by simp
      note c = search_types_full_step [OF this, of md "[]"]
      note t2 = found_in_two_phase [of md "''PROCESS SERVER''" rows2]
      show ?thesis
      proof (cases "found_in md ''PROCESS SERVER'' rows2")
        case True
        with b c Some s2 False n show ?thesis
          by (simp add: find_proof_of_service_fast_def service_types_def resolve_service_def
                resolve_rows_def del: search_types.simps)
      next
        case f2: False
        with t2 have "two_phase md (readable ''PROCESS SERVER'' (take 5 rows2)) = None" by simp
        with b c Some s2 False n f2 show ?thesis
          by (simp add: find_proof_of_service_fast_def service_types_def resolve_service_def
                resolve_rows_def del: search_types.simps(2))
      qed
    qed
  qed
qed

lemma find_readable_first:
  "passes test m row \<Longrightarrow> \<forall>r\<in>set pre. \<not> passes test m r \<Longrightarrow>
     List.find test (readable m (pre @ row # post)) = read_details row m"
  by (induction pre) (auto simp: readable_Cons passes_def split: option.splits)

lemma find_readable_none:
  "\<forall>r\<in>set rows. \<not> passes test m r \<Longrightarrow> List.find test (readable m rows) = None"
  by (simp add: find_readable list_ex_iff)

lemma scan_main_stops:
  assumes "passes (primary_test md) m (snd row)"
    and "\<forall>r\<in>set pre. \<not> passes (primary_test md) m (snd r)"
  shows "scan_main drv md m (pre @ row # post) =
           (read_details (snd row) m,
            drv\<lparr>inspected := inspected drv @ map (\<lambda>r. (m, fst r)) (pre @ [row])\<rparr>)"
proof -
  from assms(2) have n: "\<forall>r\<in>set (map snd pre). \<not> passes (primary_test md) m r" by simp
  have "primary_phase md (readable m (map snd (pre @ row # post))) = read_details (snd row) m"
    using find_readable_first [OF assms(1) n, of "map snd post"]
    by (simp add: primary_phase_test)
  moreover have "upto_first (\<lambda>r. passes (primary_test md) m (snd r)) (pre @ row # post) = pre @ [row]"
    using assms by (intro upto_first_split) simp_all
  ultimately show ?thesis by (simp only: scan_main_full)
qed

lemma scan_human_stops:
  assumes "passes fallback_test m (snd row)"
    and "\<forall>r\<in>set pre. \<not> passes fallback_test m (snd r)"
  shows "scan_human drv m (pre @ row # post) =
           (read_details (snd row) m,
            drv\<lparr>inspected := inspected drv @ map (\<lambda>r. (m, fst r)) (pre @ [row])\<rparr>)"
proof -
  from assms(2) have n: "\<forall>r\<in>set (map snd pre). \<not> passes fallback_test m r" by simp
  have "fallback_phase (readable m (map snd (pre @ row # post))) = read_details (snd row) m"
    using find_readable_first [OF assms(1) n, of "map snd post"]
    by (simp add: fallback_phase_test)
  moreover have "upto_first (\<lambda>r. passes fallback_test m (snd r)) (pre @ row # post) = pre @ [row]"
    using assms by (intro upto_first_split) simp_all
  ultimately show ?thesis by (simp only: scan_human_full)
qed

lemma scan_main_exhausts:
  assumes "\<forall>r\<in>set rows. \<not> passes (primary_test md) m (snd r)"
  shows "scan_main drv md m rows =
           (None, drv\<lparr>inspected := inspected drv @ map (\<lambda>r. (m, fst r)) rows\<rparr>)"
proof -
  from assms have n: "\<forall>r\<in>set (map snd rows). \<not> passes (primary_test md) m r" by simp
  have "primary_phase md (readable m (map snd rows)) = None"
    using find_readable_none [OF n] by (simp add: primary_phase_test)
  moreover have "upto_first (\<lambda>r. passes (primary_test md) m (snd r)) rows = rows"
    using assms by (intro upto_first_none) simp
  ultimately show ?thesis by (simp only: scan_main_full)
qed

lemma scan_human_exhausts:
  assumes "\<forall>r\<in>set rows. \<not> passes fallback_test m (snd r)"
  shows "scan_human drv m rows =
           (None, drv\<lparr>inspected := inspected drv @ map (\<lambda>r. (m, fst r)) rows\<rparr>)"
proof -
  from assms have n: "\<forall>r\<in>set (map snd rows). \<not> passes fallback_test m r" by simp
  have "fallback_phase (readable m (map snd rows)) = None"
    using find_readable_none [OF n] by (simp add: fallback_phase_test)
  moreover have "upto_first (\<lambda>r. passes fallback_test m (snd r)) rows = rows"
    using assms by (intro upto_first_none) simp
  ultimately show ?thesis by (simp only: scan_human_full)
qed

lemmas trace_eval = resolve_rows_def category_rows_def phase_rows_def found_in_def passes_def
  primary_test_def fallback_test_def

section \<open>The matcher: suffixes, greedy repetition, search\<close>

lemma last_or_Nil [simp]: "last_or p [] = p"
  by (simp add: last_or_def)

lemma last_or_Cons [simp]: "last_or p (c # cs) = last_or (Some c) cs"
  by (simp add: last_or_def)

lemma last_or_snoc [simp]: "last_or p (xs @ [c]) = Some c"
  by (simp add: last_or_def)

lemma last_or_append: "last_or p (xs @ ys) = last_or (last_or p xs) ys"
  by (simp add: last_or_def)

lemma many_suffix:
  "(p', s', g') \<in> set (many ic a p s g) \<Longrightarrow> \<exists>t. s = t @ s' \<and> p' = last_or p t"
proof (induction s arbitrary: p)
  case Nil
  then show ?case by simp
next
  case (Cons c cs)
  show ?case
  proof (cases "(p', s', g') = (p, c # cs, g)")
    case True
    then show ?thesis by simp
  next
    case False
    with Cons.prems have "(p', s', g') \<in> set (many ic a (Some c) cs g)"
      by (auto split: if_splits)
    from Cons.IH [OF this] obtain t where "cs = t @ s'" "p' = last_or (Some c) t" by blast
    then have "c # cs = (c # t) @ s' \<and> p' = last_or p (c # t)" by simp
    then show ?thesis by blast
  qed
qed

lemma rmatch_suffix:
  "(p', s', g') \<in> set (rmatch ic r (p, s, g)) \<Longrightarrow> \<exists>t. s = t @ s' \<and> p' = last_or p t"
proof (induction r arbitrary: p s g p' s' g')
  case Eps
  then show ?case by simp
next
  case (One a)
  then show ?case by (cases s) (auto split: if_splits)
next
  case (Many a)
  then show ?case using many_suffix by simp
next
  case Bol
  then show ?case by (auto split: if_splits)
next
  case Eol
  then show ?case by (auto split: if_splits)
next
  case WordB
  then show ?case by (auto split: if_splits)
next
  case (Seq r1 r2)
  from Seq.prems obtain p1 s1 g1 where
    1: "(p1, s1, g1) \<in> set (rmatch ic r1 (p, s, g))" and
    2: "(p', s', g') \<in> set (rmatch ic r2 (p1, s1, g1))"
    by auto
  from Seq.IH(1) [OF 1] obtain t1 where t1: "s = t1 @ s1" "p1 = last_or p t1" by blast
  from Seq.IH(2) [OF 2] obtain t2 where t2: "s1 = t2 @ s'" "p' = last_or p1 t2" by blast
  from t1 t2 have "s = (t1 @ t2) @ s' \<and> p' = last_or p (t1 @ t2)"
    by (simp add: last_or_append)
  then show ?case by blast
next
  case (Alt r1 r2)
  then show ?case by auto
next
  case (Opt r)
  then show ?case by auto
next
  case (Grp r)
  then show ?case by auto
qed

lemma many_then:
  assumes "\<And>p' c cs. atom_ok ic a c \<Longrightarrow> f (p', c # cs, g) = []"
  shows "concat (map f (many ic a p s g)) =
           f (last_or p (takeWhile (atom_ok ic a) s), dropWhile (atom_ok ic a) s, g)"
proof (induction s arbitrary: p)
  case Nil
  show ?case by simp
next
  case (Cons c cs)
  show ?case
  proof (cases "atom_ok ic a c")
    case True
    with assms have "f (p, c # cs, g) = []" by simp
    with True Cons.IH [of "Some c"] show ?thesis by simp
  next
    case False
    then show ?thesis by simp
  qed
qed

lemma opt_then:
  assumes "\<And>p' c cs. atom_ok ic a c \<Longrightarrow> f (p', c # cs, g) = []"
  shows "concat (map f (rmatch ic (Opt (One a)) (p, s, g))) =
           (case s of
              [] \<Rightarrow> f (p, [], g)
            | c # cs \<Rightarrow> if atom_ok ic a c then f (Some c, cs, g) else f (p, c # cs, g))"
proof (cases s)
  case Nil
  then show ?thesis by simp
next
  case (Cons c cs)
  with assms [of c p cs] show ?thesis by simp
qed

lemma search_from_None:
  "search_from ic r p s = None \<longleftrightarrow>
     (\<forall>pre u. s = pre @ u \<longrightarrow> rmatch ic r (last_or p pre, u, []) = [])"
proof (induction s arbitrary: p)
  case Nil
  show ?case by (auto split: list.splits)
next
  case (Cons c cs)
  show ?case
  proof (cases "rmatch ic r (p, c # cs, [])")
    case (Cons x xs)
    then have "search_from ic r p (c # cs) \<noteq> None" by (auto split: prod.splits)
    moreover have "\<not> (\<forall>pre u. c # cs = pre @ u \<longrightarrow> rmatch ic r (last_or p pre, u, []) = [])"
    proof
      assume "\<forall>pre u. c # cs = pre @ u \<longrightarrow> rmatch ic r (last_or p pre, u, []) = []"
      then have "c # cs = [] @ (c # cs) \<longrightarrow> rmatch ic r (last_or p [], c # cs, []) = []"
        by blast
      with Cons show False by simp
    qed
    ultimately show ?thesis by blast
  next
    case Nil
    have "(\<forall>pre u. c # cs = pre @ u \<longrightarrow> rmatch ic r (last_or p pre, u, []) = []) \<longleftrightarrow>
          (\<forall>pre u. cs = pre @ u \<longrightarrow> rmatch ic r (last_or (Some c) pre, u, []) = [])"
    proof
      assume h: "\<forall>pre u. c # cs = pre @ u \<longrightarrow> rmatch ic r (last_or p pre, u, []) = []"
      show "\<forall>pre u. cs = pre @ u \<longrightarrow> rmatch ic r (last_or (Some c) pre, u, []) = []"
      proof (intro allI impI)
        fix pre u assume "cs = pre @ u"
        then have "c # cs = (c # pre) @ u" by simp
        with h have "rmatch ic r (last_or p (c # pre), u, []) = []" by blast
        then show "rmatch ic r (last_or (Some c) pre, u, []) = []" by simp
      qed
    next
      assume h: "\<forall>pre u. cs = pre @ u \<longrightarrow> rmatch ic r (last_or (Some c) pre, u, []) = []"
      show "\<forall>pre u. c # cs = pre @ u \<longrightarrow> rmatch ic r (last_or p pre, u, []) = []"
      proof (intro allI impI)
        fix pre u assume e: "c # cs = pre @ u"
        show "rmatch ic r (last_or p pre, u, []) = []"
        proof (cases pre)
          case Nil
          with e \<open>rmatch ic r (p, c # cs, []) = []\<close> show ?thesis by simp
        next
          case (Cons x pre')
          with e have "cs = pre' @ u" "x = c" by auto
          with h Cons show ?thesis by auto
        qed
      qed
    qed
    with Nil Cons.IH [of "Some c"] show ?thesis by simp
  qed
qed

lemma search_from_first:
  assumes "s = pre @ u"
    and "\<forall>pre' u'. s = pre' @ u' \<and> length pre' < length pre \<longrightarrow> rmatch ic r (last_or p pre', u', []) = []"
    and "rmatch ic r (last_or p pre, u, []) = (p', s', g) # xs"
  shows "search_from ic r p s = Some (take (length u - length s') u, g)"
  using assms
proof (induction pre arbitrary: s p)
  case Nil
  then show ?case by (cases u) auto
next
  case (Cons c pre)
  from Cons.prems(1) have s: "s = c # (pre @ u)" by simp
  from Cons.prems(2) [rule_format, of "[]" s] have n: "rmatch ic r (p, s, []) = []" by simp
  have "search_from ic r (Some c) (pre @ u) = Some (take (length u - length s') u, g)"
  proof (rule Cons.IH)
    show "pre @ u = pre @ u" by simp
    show "\<forall>pre' u'. pre @ u = pre' @ u' \<and> length pre' < length pre \<longrightarrow>
            rmatch ic r (last_or (Some c) pre', u', []) = []"
    proof (intro allI impI)
      fix pre' u' assume h: "pre @ u = pre' @ u' \<and> length pre' < length pre"
      then have "s = (c # pre') @ u' \<and> length (c # pre') < length (c # pre)" using s by simp
      with Cons.prems(2) have "rmatch ic r (last_or p (c # pre'), u', []) = []" by blast
      then show "rmatch ic r (last_or (Some c) pre', u', []) = []" by simp
    qed
    show "rmatch ic r (last_or (Some c) pre, u, []) = (p', s', g) # xs"
      using Cons.prems(3) by simp
  qed
  with n s show ?case by simp
qed

lemma atom_ok_simps [simp]:
  "atom_ok False (In [Digit]) c = is_digit c"
  "atom_ok False (In [Space]) c = is_space c"
  "atom_ok False (In [Ch x]) c = (c = x)"
  "atom_ok False (NotIn [Ch x]) c = (c \<noteq> x)"
  "atom_ok False (In [Rng lo hi]) c = (code lo \<le> code c \<and> code c \<le> code hi)"
  by simp_all

lemma atom_ok_funs [simp]:
  "atom_ok False (In [Digit]) = is_digit"
  "atom_ok False (In [Space]) = is_space"
  "atom_ok False (NotIn [Ch x]) = (\<lambda>c. c \<noteq> x)"
  by (rule ext, simp)+

lemma rmatch_chr [simp]:
  "rmatch False (chr x) (p, s, g) = (case s of [] \<Rightarrow> [] | c # cs \<Rightarrow> if c = x then [(Some c, cs, g)] else [])"
  by (cases s) (simp_all add: chr_def)

lemma rmatch_One [simp]:
  "rmatch False (One a) (p, c # cs, g) = (if atom_ok False a c then [(Some c, cs, g)] else [])"
  "rmatch False (One a) (p, [], g) = []"
  by simp_all

lemma rmatch_Seq_fun: "rmatch ic (Seq a b) = (\<lambda>st. concat (map (rmatch ic b) (rmatch ic a st)))"
  by (rule ext) simp

lemma space_not_paren: "is_space c \<Longrightarrow> c \<noteq> CHR ''(''"
  by (auto simp: is_space_def code_def)

lemma digit_not_newline: "is_digit c \<Longrightarrow> c \<noteq> CHR 0x0A"
  by (auto simp: is_digit_def code_def)

lemma newline_space: "is_space (CHR 0x0A)"
  by (simp add: is_space_def code_def)

section \<open>Case numbers: the bracket pattern and the case pattern\<close>

lemma rmatch_close:
  "rmatch False (Seq (Many (NotIn [Ch CHR '')''])) (chr CHR '')'')) (p, s, g) =
     (case dropWhile (\<lambda>x. x \<noteq> CHR '')'') s of [] \<Rightarrow> [] | y # s3 \<Rightarrow> [(Some y, s3, g)])"
proof -
  define D where "D = dropWhile (\<lambda>x. x \<noteq> CHR '')'') s"
  define P where "P = last_or p (takeWhile (\<lambda>x. x \<noteq> CHR '')'') s)"
  have "concat (map (rmatch False (chr CHR '')'')) (many False (NotIn [Ch CHR '')'']) p s g)) =
        rmatch False (chr CHR '')'')
          (last_or p (takeWhile (atom_ok False (NotIn [Ch CHR '')''])) s),
           dropWhile (atom_ok False (NotIn [Ch CHR '')''])) s, g)"
    by (rule many_then) simp
  then have 1: "rmatch False (Seq (Many (NotIn [Ch CHR '')''])) (chr CHR '')'')) (p, s, g) =
        rmatch False (chr CHR '')'') (P, D, g)"
    by (simp add: D_def P_def)
  have 2: "rmatch False (chr CHR '')'') (P, D, g) =
        (case D of [] \<Rightarrow> [] | y # s3 \<Rightarrow> [(Some y, s3, g)])"
  proof (cases D)
    case Nil
    then show ?thesis by simp
  next
    case (Cons y s3)
    have "D \<noteq> [] \<Longrightarrow> \<not> (hd D \<noteq> CHR '')'')"
      unfolding D_def by (rule hd_dropWhile)
    with Cons have "y = CHR '')''" by simp
    with Cons show ?thesis by simp
  qed
  from 1 2 show ?thesis by (simp only: D_def)
qed

lemma rmatch_bracket:
  "rmatch False bracket_rx (p, s, g) =
     (case dropWhile is_space s of
        [] \<Rightarrow> []
      | c # s2 \<Rightarrow>
          if c = CHR ''(''
          then (case dropWhile (\<lambda>x. x \<noteq> CHR '')'') s2 of [] \<Rightarrow> [] | y # s3 \<Rightarrow> [(Some y, s3, g)])
          else [])"
proof -
  let ?R2 = "Seq (Many (NotIn [Ch CHR '')''])) (chr CHR '')'')"
  let ?R = "Seq (chr CHR ''('') ?R2"
  define D where "D = dropWhile is_space s"
  define P where "P = last_or p (takeWhile is_space s)"
  have "concat (map (rmatch False ?R) (many False (In [Space]) p s g)) =
        rmatch False ?R
          (last_or p (takeWhile (atom_ok False (In [Space])) s),
           dropWhile (atom_ok False (In [Space])) s, g)"
    by (rule many_then) (simp add: space_not_paren)
  then have 1: "rmatch False bracket_rx (p, s, g) = rmatch False ?R (P, D, g)"
    by (simp add: bracket_rx_def D_def P_def)
  have 2: "rmatch False ?R (P, D, g) =
      (case D of
        [] \<Rightarrow> []
      | c # s2 \<Rightarrow>
          if c = CHR ''(''
          then (case dropWhile (\<lambda>x. x \<noteq> CHR '')'') s2 of [] \<Rightarrow> [] | y # s3 \<Rightarrow> [(Some y, s3, g)])
          else [])"
  proof (cases D)
    case Nil
    then show ?thesis by simp
  next
    case (Cons c s2)
    have "rmatch False ?R (P, c # s2, g) =
          concat (map (rmatch False ?R2) (rmatch False (chr CHR ''('') (P, c # s2, g)))"
      by (simp only: rmatch.simps)
    also have "\<dots> = (if c = CHR ''('' then rmatch False ?R2 (Some c, s2, g) else [])"
      by simp
    finally show ?thesis using Cons by (simp add: rmatch_close del: rmatch.simps)
  qed
  from 1 2 show ?thesis by (simp only: D_def)
qed

lemma bracket_progress:
  "rmatch False bracket_rx (p, s, g) = (p', s', g') # xs \<Longrightarrow> length s' < length s"
proof -
  assume a: "rmatch False bracket_rx (p, s, g) = (p', s', g') # xs"
  then obtain s2 y where 1: "dropWhile is_space s = CHR ''('' # s2"
    and 2: "dropWhile (\<lambda>x. x \<noteq> CHR '')'') s2 = y # s'"
    by (auto simp: rmatch_bracket split: list.splits if_splits)
  have "length (dropWhile (\<lambda>x. x \<noteq> CHR '')'') s2) \<le> length s2"
    by (rule length_dropWhile_le)
  moreover have "length (dropWhile is_space s) \<le> length s"
    by (rule length_dropWhile_le)
  ultimately show ?thesis using 1 2 by simp
qed

lemma bracket_space_before:
  "is_space c \<Longrightarrow> rmatch False bracket_rx (q, cs, g) \<noteq> [] \<Longrightarrow>
     rmatch False bracket_rx (p, c # cs, g) \<noteq> []"
  by (simp add: rmatch_bracket split: list.splits)

lemma sub_del_Nil [simp]: "sub_del ic r p [] = []"
  by (subst sub_del.simps) (simp split: list.splits prod.splits)

lemma sub_del_empty_match:
  assumes "sub_del ic r p s = []" and "s \<noteq> []"
  shows "rmatch ic r (p, s, []) \<noteq> []"
proof
  assume n: "rmatch ic r (p, s, []) = []"
  from assms(2) obtain c cs where s: "s = c # cs" by (cases s) auto
  with n have "sub_del ic r p s = c # sub_del ic r (Some c) cs"
    by (subst sub_del.simps) simp
  with assms(1) show False by simp
qed

lemma sub_del_bracket_end:
  "s = [] \<or> \<not> is_space (last s) \<Longrightarrow>
     sub_del False bracket_rx p s = [] \<or> \<not> is_space (last (sub_del False bracket_rx p s))"
proof (induction "length s" arbitrary: s p rule: less_induct)
  case less
  show ?case
  proof (cases s)
    case Nil
    then show ?thesis by simp
  next
    case (Cons c cs)
    show ?thesis
    proof (cases "rmatch False bracket_rx (p, s, [])")
      case (Cons x xs)
      obtain p' s' g' where x: "x = (p', s', g')" by (cases x)
      with Cons have m: "rmatch False bracket_rx (p, s, []) = (p', s', g') # xs" by simp
      then have l: "length s' < length s" by (rule bracket_progress)
      from m have "(p', s', g') \<in> set (rmatch False bracket_rx (p, s, []))" by simp
      then obtain t where t: "s = t @ s'" using rmatch_suffix by blast
      with less.prems have e: "s' = [] \<or> \<not> is_space (last s')" by (cases "s' = []") auto
      from m l have "sub_del False bracket_rx p s = sub_del False bracket_rx p' s'"
        by (subst sub_del.simps) simp
      with less.hyps [OF l e] show ?thesis by simp
    next
      case Nil
      with \<open>s = c # cs\<close>
      have o: "sub_del False bracket_rx p s = c # sub_del False bracket_rx (Some c) cs"
        by (subst sub_del.simps) simp
      show ?thesis
      proof (cases "cs = []")
        case True
        with o less.prems \<open>s = c # cs\<close> show ?thesis by simp
      next
        case False
        with less.prems \<open>s = c # cs\<close> have e: "cs = [] \<or> \<not> is_space (last cs)" by simp
        have l: "length cs < length s" using \<open>s = c # cs\<close> by simp
        from less.hyps [OF l e, of "Some c"]
        have ih: "sub_del False bracket_rx (Some c) cs = [] \<or>
                  \<not> is_space (last (sub_del False bracket_rx (Some c) cs))" .
        show ?thesis
        proof (cases "sub_del False bracket_rx (Some c) cs = []")
          case True
          from sub_del_empty_match [OF True False]
          have "rmatch False bracket_rx (Some c, cs, []) \<noteq> []" .
          with Nil \<open>s = c # cs\<close> have "\<not> is_space c"
            using bracket_space_before [of c "Some c" cs "[]" p] by auto
          with o True show ?thesis by simp
        next
          case ne: False
          with ih o show ?thesis by simp
        qed
      qed
    qed
  qed
qed

lemma str_strip_end: "str_strip s = [] \<or> \<not> is_space (last (str_strip s))"
proof -
  let ?t = "str_lstrip s"
  have "dropWhile is_space (rev ?t) = [] \<or> \<not> is_space (hd (dropWhile is_space (rev ?t)))"
    using hd_dropWhile [of is_space "rev ?t"] by blast
  then show ?thesis
    by (auto simp: str_strip_def str_rstrip_def last_rev)
qed

lemma clean_case_end: "clean_case s = [] \<or> \<not> is_space (last (clean_case s))"
  unfolding clean_case_def re_sub_del_def
  by (rule sub_del_bracket_end) (rule str_strip_end)

lemma clean_case_no_newline: "clean_case s \<noteq> b @ [CHR 0x0A]"
  using clean_case_end [of s] newline_space by auto

lemma rmatch_two:
  "rmatch False (Grp (rep 2 (One a))) (p, s, g) =
     (case s of
        x1 # x2 # s' \<Rightarrow>
          if atom_ok False a x1 \<and> atom_ok False a x2 then [(Some x2, s', g @ [[x1, x2]])] else []
      | _ \<Rightarrow> [])"
proof -
  have r: "rep 2 (One a) = Seq (One a) (One a)"
    by (simp add: numeral_2_eq_2)
  show ?thesis
  proof (cases s)
    case Nil
    then show ?thesis by (simp add: r)
  next
    case (Cons x1 s1)
    then show ?thesis by (cases s1) (simp_all add: r)
  qed
qed

lemma take_run: "take (Suc (length xs) - length (dropWhile P xs)) (x # xs) = x # takeWhile P xs"
proof -
  have "length xs = length (takeWhile P xs) + length (dropWhile P xs)"
    by (metis length_append takeWhile_dropWhile_id)
  then have "Suc (length xs) - length (dropWhile P xs) = Suc (length (takeWhile P xs))"
    by simp
  moreover have "take (length (takeWhile P xs)) xs = takeWhile P xs"
    by (metis append_eq_conv_conj takeWhile_dropWhile_id)
  ultimately show ?thesis by simp
qed

lemma rmatch_digits_eol:
  "rmatch False (Seq (Grp (many1 (In [Digit]))) Eol) (p, s, g) =
     (case s of
        [] \<Rightarrow> []
      | x # xs \<Rightarrow>
          if is_digit x \<and> (dropWhile is_digit xs = [] \<or> dropWhile is_digit xs = [CHR 0x0A])
          then [(last_or (Some x) (takeWhile is_digit xs), dropWhile is_digit xs,
                 g @ [x # takeWhile is_digit xs])]
          else [])"
proof (cases s)
  case Nil
  then show ?thesis by (simp add: many1_def)
next
  case (Cons x xs)
  show ?thesis
  proof (cases "is_digit x")
    case False
    with Cons show ?thesis by (simp add: many1_def)
  next
    case True
    define f where "f = (\<lambda>st. rmatch False Eol
        (case st of (p', s', g') \<Rightarrow> (p' :: char option, s', g' @ [take (length (x # xs) - length s') (x # xs)])))"
    have "concat (map f (many False (In [Digit]) (Some x) xs g)) =
          f (last_or (Some x) (takeWhile (atom_ok False (In [Digit])) xs),
             dropWhile (atom_ok False (In [Digit])) xs, g)"
    proof (rule many_then)
      fix p' c cs
      assume "atom_ok False (In [Digit]) c"
      then have "c \<noteq> CHR 0x0A" by (simp add: digit_not_newline)
      then show "f (p', c # cs, g) = []" by (simp add: f_def)
    qed
    moreover have "rmatch False (Seq (Grp (many1 (In [Digit]))) Eol) (p, s, g) =
          concat (map f (many False (In [Digit]) (Some x) xs g))"
      using Cons True by (simp add: many1_def f_def map_concat comp_def case_prod_unfold)
    ultimately have "rmatch False (Seq (Grp (many1 (In [Digit]))) Eol) (p, s, g) =
          f (last_or (Some x) (takeWhile is_digit xs), dropWhile is_digit xs, g)"
      by simp
    with Cons True show ?thesis
      by (simp add: f_def take_run)
  qed
qed

lemma dropWhile_newline_end:
  assumes "dropWhile P xs = [c]"
  shows "\<exists>b. xs = b @ [c]"
proof -
  have "xs = takeWhile P xs @ dropWhile P xs" by simp
  with assms have "xs = takeWhile P xs @ [c]" by simp
  then show ?thesis by blast
qed

lemma rmatch_case_rx:
  assumes "\<And>b. c \<noteq> b @ [CHR 0x0A]"
  shows "re_match False case_rx c =
           (if case_form c then Some (c, [take 2 c, take 2 (drop 2 c), drop 4 c]) else None)"
proof -
  let ?T = "Seq (Grp (many1 (In [Digit]))) Eol"
  have e: "rmatch False case_rx (None, c, []) =
      concat (map (\<lambda>st. concat (map (rmatch False ?T)
                (rmatch False (Grp (rep 2 (One (In [Rng CHR ''A'' CHR ''Z''])))) st)))
          (rmatch False (Grp (rep 2 (One (In [Digit])))) (None, c, [])))"
    by (simp add: case_rx_def rmatch_Seq_fun [of False "Grp (rep 2 (One (In [Rng CHR ''A'' CHR ''Z''])))"]
          del: rmatch.simps(10) rep.simps)
  show ?thesis
  proof (cases c)
    case Nil
    then show ?thesis using e by (simp add: re_match_def rmatch_two case_form_def del: rmatch.simps)
  next
    case c1: (Cons x1 s1)
    show ?thesis
    proof (cases s1)
      case Nil
      with c1 show ?thesis using e by (simp add: re_match_def rmatch_two case_form_def del: rmatch.simps)
    next
      case c2: (Cons x2 s2)
      show ?thesis
      proof (cases s2)
        case Nil
        with c1 c2 show ?thesis using e by (simp add: re_match_def rmatch_two case_form_def del: rmatch.simps)
      next
        case c3: (Cons x3 s3)
        show ?thesis
        proof (cases s3)
          case Nil
          with c1 c2 c3 show ?thesis using e by (simp add: re_match_def rmatch_two case_form_def del: rmatch.simps)
        next
          case c4: (Cons x4 s4)
          show ?thesis
          proof (cases s4)
            case Nil
            with c1 c2 c3 c4 show ?thesis
              using e
              by (simp add: re_match_def rmatch_two rmatch_digits_eol case_form_def
                    del: rmatch.simps)
          next
            case c5: (Cons x5 xs)
            have c: "c = x1 # x2 # x3 # x4 # x5 # xs" using c1 c2 c3 c4 c5 by simp
            have nn: "dropWhile is_digit xs \<noteq> [CHR 0x0A]"
            proof
              assume "dropWhile is_digit xs = [CHR 0x0A]"
              from dropWhile_newline_end [OF this] obtain b where "xs = b @ [CHR 0x0A]" ..
              then have "c = (x1 # x2 # x3 # x4 # x5 # b) @ [CHR 0x0A]" using c by simp
              with assms show False by blast
            qed
            define ok where "ok = (is_digit x1 \<and> is_digit x2 \<and> is_upper x3 \<and> is_upper x4 \<and>
                is_digit x5 \<and> list_all is_digit xs)"
            have cf: "case_form c = ok"
              by (simp add: c case_form_def ok_def)
            have g1: "rmatch False (Grp (rep 2 (One (In [Digit])))) (None, c, []) =
                (if is_digit x1 \<and> is_digit x2 then [(Some x2, x3 # x4 # x5 # xs, [[x1, x2]])] else [])"
              by (simp add: c rmatch_two del: rmatch.simps)
            have g2: "rmatch False (Grp (rep 2 (One (In [Rng CHR ''A'' CHR ''Z''])))) (Some x2, x3 # x4 # x5 # xs, [[x1, x2]]) =
                (if is_upper x3 \<and> is_upper x4 then [(Some x4, x5 # xs, [[x1, x2], [x3, x4]])] else [])"
              by (simp add: rmatch_two is_upper_def del: rmatch.simps)
            have g3: "rmatch False ?T (Some x4, x5 # xs, [[x1, x2], [x3, x4]]) =
                (if is_digit x5 \<and> list_all is_digit xs
                 then [(last_or (Some x5) xs, [], [[x1, x2], [x3, x4], x5 # xs])] else [])"
            proof (cases "list_all is_digit xs")
              case True
              then have tw: "takeWhile is_digit xs = xs" and dw: "dropWhile is_digit xs = []"
                by (simp_all add: list_all_iff)
              from True show ?thesis by (simp add: rmatch_digits_eol tw dw list_all_iff del: rmatch.simps)
            next
              case False
              then have "dropWhile is_digit xs \<noteq> []" by (simp add: list_all_iff)
              with False nn show ?thesis by (auto simp: rmatch_digits_eol list_all_iff simp del: rmatch.simps)
            qed
            show ?thesis
            proof (cases ok)
              case True
              then have "rmatch False case_rx (None, c, []) =
                  [(last_or (Some x5) xs, [], [[x1, x2], [x3, x4], x5 # xs])]"
                unfolding e g1 by (simp add: ok_def g2 g3 del: rmatch.simps)
              with True cf show ?thesis by (simp add: re_match_def c)
            next
              case False
              then have "rmatch False case_rx (None, c, []) = []"
                unfolding e g1 by (auto simp: ok_def g2 g3 simp del: rmatch.simps)
              with False cf show ?thesis by (simp add: re_match_def)
            qed
          qed
        qed
      qed
    qed
  qed
qed

lemma clean_case_Nil: "clean_case [] = []"
  by (simp add: clean_case_def re_sub_del_def str_strip_def str_lstrip_def str_rstrip_def)

lemma clean_sample: "clean_case ''23CV5681 (12844)'' = ''23CV5681''"
  by code_simp

lemma clean_lower: "clean_case ''23cv5681'' = ''23cv5681''"
  by code_simp

section \<open>The attorney address: lines and telephone number\<close>

lemma atom_ok_sep: "atom_ok False (In [Ch CHR ''-'', Ch CHR ''.'', Space]) = is_sep"
  by (rule ext) (simp add: is_sep_def)

lemma atom_ok_one: "atom_ok False (In [Ch x]) = (\<lambda>c. c = x)"
  by (rule ext) simp

lemma rmatch_rep:
  "0 < n \<Longrightarrow> rmatch False (rep n (One a)) (p, s, g) =
     (if n \<le> length s \<and> list_all (atom_ok False a) (take n s)
      then [(last_or p (take n s), drop n s, g)] else [])"
proof (induction n "One a" arbitrary: p s rule: rep.induct)
  case 1
  then show ?case by simp
next
  case 2
  show ?case by (cases s) simp_all
next
  case (3 v)
  from "3.hyps" [of "Some (hd s)" "tl s"]
  show ?case by (cases s) (auto simp: take_Suc_conv_app_nth last_or_def)
qed

lemma rmatch_rep_then:
  "0 < n \<Longrightarrow> rmatch False (Seq (rep n (One a)) r) (p, s, g) =
     (if n \<le> length s \<and> list_all (atom_ok False a) (take n s)
      then rmatch False r (last_or p (take n s), drop n s, g) else [])"
  by (auto simp: rmatch_rep)

lemma rmatch_opt_then:
  assumes "atom_ok False a = P"
    and "\<And>p' c cs. P c \<Longrightarrow> rmatch False r (p', c # cs, g) = []"
  shows "rmatch False (Seq (Opt (One a)) r) (p, s, g) =
           rmatch False r (skip_prev P p s, skip_opt P s, g)"
proof -
  have "concat (map (rmatch False r) (rmatch False (Opt (One a)) (p, s, g))) =
           (case s of
              [] \<Rightarrow> rmatch False r (p, [], g)
            | c # cs \<Rightarrow> if atom_ok False a c then rmatch False r (Some c, cs, g)
                        else rmatch False r (p, c # cs, g))"
    by (rule opt_then) (simp add: assms)
  then show ?thesis
    using assms(1) by (cases s) (simp_all del: rmatch.simps add: rmatch.simps(7))
qed

lemma sep_not_digit: "is_sep c \<Longrightarrow> \<not> is_digit c"
  by (auto simp: is_sep_def is_digit_def is_space_def code_def Let_def)

lemma paren_not_digit: "\<not> is_digit CHR ''(''" "\<not> is_digit CHR '')''"
  by (simp_all add: is_digit_def code_def)

lemma paren_not_sep: "\<not> is_sep CHR '')''"
  by (simp add: is_sep_def is_space_def code_def)

lemma eat_refuses: "\<not> is_digit c \<Longrightarrow> 0 < n \<Longrightarrow> eat n (c # cs) = None"
  by (cases n) (simp_all add: eat_def)

lemma phone_rx_tails: "phone_rx = Seq (Opt (chr CHR ''('')) (Seq (rep 3 (One (In [Digit]))) tail0)"
  by (simp add: phone_rx_def tail0_def tail1_def tail2_def tail3_def tail4_def)

lemma rmatch_tail4:
  "\<exists>p'. rmatch False tail4 (p, s, g) = (case eat 4 s of None \<Rightarrow> [] | Some r \<Rightarrow> [(p', r, g)])"
  by (simp add: tail4_def rmatch_rep eat_def del: rep.simps)

lemma rmatch_tail3:
  "\<exists>p'. rmatch False tail3 (p, s, g) =
     (case eat 4 (skip_opt is_sep s) of None \<Rightarrow> [] | Some r \<Rightarrow> [(p', r, g)])"
proof -
  have r: "rmatch False tail4 (p', c # cs, g) = []" if "is_sep c" for p' c cs
    using that rmatch_tail4 [of p' "c # cs" g] by (auto simp: eat_refuses sep_not_digit)
  have "rmatch False tail3 (p, s, g) =
      rmatch False tail4 (skip_prev is_sep p s, skip_opt is_sep s, g)"
    unfolding tail3_def phone_sep_def
    by (rule rmatch_opt_then [OF atom_ok_sep r])
  with rmatch_tail4 [of "skip_prev is_sep p s" "skip_opt is_sep s" g] show ?thesis by auto
qed

lemma rmatch_tail2:
  "\<exists>p'. rmatch False tail2 (p, s, g) =
     (case eat 3 s of
        None \<Rightarrow> []
      | Some s2 \<Rightarrow> (case eat 4 (skip_opt is_sep s2) of None \<Rightarrow> [] | Some r \<Rightarrow> [(p', r, g)]))"
proof (cases "eat 3 s")
  case None
  then have "rmatch False tail2 (p, s, g) = []"
    unfolding tail2_def by (subst rmatch_rep_then) (auto simp: eat_def split: if_splits)
  with None show ?thesis by simp
next
  case (Some s2)
  then have "rmatch False tail2 (p, s, g) = rmatch False tail3 (last_or p (take 3 s), s2, g)"
    unfolding tail2_def by (subst rmatch_rep_then) (auto simp: eat_def split: if_splits)
  with Some rmatch_tail3 [of "last_or p (take 3 s)" s2 g] show ?thesis by auto
qed

lemma rmatch_tail1:
  "\<exists>p'. rmatch False tail1 (p, s, g) =
     (case eat 3 (skip_opt is_sep s) of
        None \<Rightarrow> []
      | Some s2 \<Rightarrow> (case eat 4 (skip_opt is_sep s2) of None \<Rightarrow> [] | Some r \<Rightarrow> [(p', r, g)]))"
proof -
  have r: "rmatch False tail2 (p', c # cs, g) = []" if "is_sep c" for p' c cs
    using that rmatch_tail2 [of p' "c # cs" g] by (auto simp: eat_refuses sep_not_digit)
  have "rmatch False tail1 (p, s, g) =
      rmatch False tail2 (skip_prev is_sep p s, skip_opt is_sep s, g)"
    unfolding tail1_def phone_sep_def
    by (rule rmatch_opt_then [OF atom_ok_sep r])
  with rmatch_tail2 [of "skip_prev is_sep p s" "skip_opt is_sep s" g] show ?thesis by auto
qed

lemma rmatch_tail0:
  "\<exists>p'. rmatch False tail0 (p, s, g) =
     (case eat 3 (skip_opt is_sep (skip_opt (\<lambda>x. x = CHR '')'') s)) of
        None \<Rightarrow> []
      | Some s2 \<Rightarrow> (case eat 4 (skip_opt is_sep s2) of None \<Rightarrow> [] | Some r \<Rightarrow> [(p', r, g)]))"
proof -
  have r: "rmatch False tail1 (p', c # cs, g) = []" if "c = CHR '')''" for p' c cs
    using that rmatch_tail1 [of p' "c # cs" g]
    by (auto simp: eat_refuses paren_not_digit paren_not_sep)
  have "rmatch False tail0 (p, s, g) =
      rmatch False tail1 (skip_prev (\<lambda>x. x = CHR '')'') p s, skip_opt (\<lambda>x. x = CHR '')'') s, g)"
    unfolding tail0_def chr_def
    by (rule rmatch_opt_then [OF atom_ok_one r])
  with rmatch_tail1 [of "skip_prev (\<lambda>x. x = CHR '')'') p s" "skip_opt (\<lambda>x. x = CHR '')'') s" g]
  show ?thesis by auto
qed

lemma rmatch_phone:
  "\<exists>p'. rmatch False phone_rx (p, s, g) =
     (case phone_rest s of None \<Rightarrow> [] | Some r \<Rightarrow> [(p', r, g)])"
proof -
  let ?R = "Seq (rep 3 (One (In [Digit]))) tail0"
  have d: "\<exists>p'. rmatch False ?R (q, u, g) =
      (case eat 3 u of
         None \<Rightarrow> []
       | Some s1 \<Rightarrow>
           (case eat 3 (skip_opt is_sep (skip_opt (\<lambda>x. x = CHR '')'') s1)) of
              None \<Rightarrow> []
            | Some s2 \<Rightarrow> (case eat 4 (skip_opt is_sep s2) of None \<Rightarrow> [] | Some r \<Rightarrow> [(p', r, g)])))"
    for q u
  proof (cases "eat 3 u")
    case None
    then have "rmatch False ?R (q, u, g) = []"
      by (subst rmatch_rep_then) (auto simp: eat_def split: if_splits)
    with None show ?thesis by simp
  next
    case (Some s1)
    then have "rmatch False ?R (q, u, g) = rmatch False tail0 (last_or q (take 3 u), s1, g)"
      by (subst rmatch_rep_then) (auto simp: eat_def split: if_splits)
    with Some rmatch_tail0 [of "last_or q (take 3 u)" s1 g] show ?thesis by auto
  qed
  have r: "rmatch False ?R (p', c # cs, g) = []" if "c = CHR ''(''" for p' c cs
    using that d [of p' "c # cs"] by (auto simp: eat_refuses paren_not_digit)
  have "rmatch False phone_rx (p, s, g) =
      rmatch False ?R (skip_prev (\<lambda>x. x = CHR ''('') p s, skip_opt (\<lambda>x. x = CHR ''('') s, g)"
    unfolding phone_rx_tails chr_def
    by (rule rmatch_opt_then [OF atom_ok_one r])
  with d [of "skip_prev (\<lambda>x. x = CHR ''('') p s" "skip_opt (\<lambda>x. x = CHR ''('') s"]
  show ?thesis by (auto simp: phone_rest_def simp del: rmatch.simps split: option.splits)
qed

lemma skip_opt_split: "\<exists>a. s = a @ skip_opt P s \<and> opt_of P a"
proof (cases s)
  case Nil
  then show ?thesis by (simp add: opt_of_def)
next
  case (Cons c cs)
  show ?thesis
  proof (cases "P c")
    case True
    with Cons have "s = [c] @ skip_opt P s \<and> opt_of P [c]" by (simp add: opt_of_def)
    then show ?thesis by blast
  next
    case False
    with Cons have "s = [] @ skip_opt P s \<and> opt_of P []" by (simp add: opt_of_def)
    then show ?thesis by blast
  qed
qed

lemma eat_split: "eat n s = Some r \<Longrightarrow> \<exists>b. s = b @ r \<and> digits n b"
proof -
  assume "eat n s = Some r"
  then have "n \<le> length s" "list_all is_digit (take n s)" "r = drop n s"
    by (auto simp: eat_def split: if_splits)
  then have "s = take n s @ r \<and> digits n (take n s)"
    by (simp add: digits_def)
  then show ?thesis by blast
qed

lemma phone_rest_form:
  assumes "phone_rest s = Some r"
  shows "\<exists>t. s = t @ r \<and> phone_form t"
proof -
  from assms obtain s1 s2 where
    1: "eat 3 (skip_opt (\<lambda>x. x = CHR ''('') s) = Some s1" and
    2: "eat 3 (skip_opt is_sep (skip_opt (\<lambda>x. x = CHR '')'') s1)) = Some s2" and
    3: "eat 4 (skip_opt is_sep s2) = Some r"
    by (auto simp: phone_rest_def split: option.splits)
  from skip_opt_split [of s "\<lambda>x. x = CHR ''(''"] obtain a where
    a: "s = a @ skip_opt (\<lambda>x. x = CHR ''('') s" "opt_of (\<lambda>x. x = CHR ''('') a" by blast
  from eat_split [OF 1] obtain b where
    b: "skip_opt (\<lambda>x. x = CHR ''('') s = b @ s1" "digits 3 b" by blast
  from skip_opt_split [of s1 "\<lambda>x. x = CHR '')''"] obtain c where
    c: "s1 = c @ skip_opt (\<lambda>x. x = CHR '')'') s1" "opt_of (\<lambda>x. x = CHR '')'') c" by blast
  from skip_opt_split [of "skip_opt (\<lambda>x. x = CHR '')'') s1" is_sep] obtain d where
    d: "skip_opt (\<lambda>x. x = CHR '')'') s1 = d @ skip_opt is_sep (skip_opt (\<lambda>x. x = CHR '')'') s1)"
       "opt_of is_sep d" by blast
  from eat_split [OF 2] obtain e where
    e: "skip_opt is_sep (skip_opt (\<lambda>x. x = CHR '')'') s1) = e @ s2" "digits 3 e" by blast
  from skip_opt_split [of s2 is_sep] obtain f where
    f: "s2 = f @ skip_opt is_sep s2" "opt_of is_sep f" by blast
  from eat_split [OF 3] obtain g where
    g: "skip_opt is_sep s2 = g @ r" "digits 4 g" by blast
  have "s = (a @ b @ c @ d @ e @ f @ g) @ r"
    using a(1) b(1) c(1) d(1) e(1) f(1) g(1) by (metis append.assoc)
  moreover have "phone_form (a @ b @ c @ d @ e @ f @ g)"
    unfolding phone_form_def using a(2) b(2) c(2) d(2) e(2) f(2) g(2) by blast
  ultimately show ?thesis by blast
qed

lemma skip_opt_here:
  "opt_of P a \<Longrightarrow> u = [] \<or> \<not> P (hd u) \<Longrightarrow> skip_opt P (a @ u) = u"
  by (cases u) (auto simp: opt_of_def)

lemma eat_here: "digits n b \<Longrightarrow> eat n (b @ u) = Some u"
  by (simp add: digits_def eat_def)

lemma digits_hd: "digits n b \<Longrightarrow> 0 < n \<Longrightarrow> b @ u \<noteq> [] \<and> is_digit (hd (b @ u))"
  by (cases b) (auto simp: digits_def)

lemma opt_sep_digits_hd:
  "opt_of is_sep d \<Longrightarrow> digits n e \<Longrightarrow> 0 < n \<Longrightarrow> hd (d @ e @ u) \<noteq> CHR '')''"
  using digits_hd [of n e u] paren_not_digit paren_not_sep
  by (cases d) (auto simp: opt_of_def)

lemma phone_form_rest:
  assumes "phone_form t"
  shows "phone_rest (t @ r) = Some r"
proof -
  from assms obtain a b c d e f g where
    t: "t = a @ b @ c @ d @ e @ f @ g" and
    a: "opt_of (\<lambda>x. x = CHR ''('') a" and b: "digits 3 b" and
    c: "opt_of (\<lambda>x. x = CHR '')'') c" and d: "opt_of is_sep d" and e: "digits 3 e" and
    f: "opt_of is_sep f" and g: "digits 4 g"
    unfolding phone_form_def by blast
  have 1: "skip_opt (\<lambda>x. x = CHR ''('') (a @ b @ c @ d @ e @ f @ g @ r) = b @ c @ d @ e @ f @ g @ r"
    using digits_hd [OF b, of "c @ d @ e @ f @ g @ r"] paren_not_digit
    by (intro skip_opt_here [OF a]) auto
  have 2: "eat 3 (b @ c @ d @ e @ f @ g @ r) = Some (c @ d @ e @ f @ g @ r)"
    by (rule eat_here [OF b])
  have 3: "skip_opt (\<lambda>x. x = CHR '')'') (c @ d @ e @ f @ g @ r) = d @ e @ f @ g @ r"
    using opt_sep_digits_hd [OF d e, of "f @ g @ r"]
    by (intro skip_opt_here [OF c]) auto
  have 4: "skip_opt is_sep (d @ e @ f @ g @ r) = e @ f @ g @ r"
    using digits_hd [OF e, of "f @ g @ r"] sep_not_digit
    by (intro skip_opt_here [OF d]) auto
  have 5: "eat 3 (e @ f @ g @ r) = Some (f @ g @ r)"
    by (rule eat_here [OF e])
  have 6: "skip_opt is_sep (f @ g @ r) = g @ r"
    using digits_hd [OF g, of r] sep_not_digit
    by (intro skip_opt_here [OF f]) auto
  have 7: "eat 4 (g @ r) = Some r"
    by (rule eat_here [OF g])
  show ?thesis
    by (simp add: phone_rest_def t 1 2 3 4 5 6 7)
qed

lemma search_from_Some:
  "search_from ic r p s = Some (m, g) \<Longrightarrow> \<exists>pre u. found_at ic r p s m g pre u"
proof (induction s arbitrary: p)
  case Nil
  show ?case
  proof (cases "rmatch ic r (p, [], [])")
    case Nil
    with Nil.prems show ?thesis by simp
  next
    case (Cons x xs)
    obtain p' s' g' where x: "x = (p', s', g')" by (cases x)
    with Cons Nil.prems have "g' = g" "m = []" by auto
    with Cons x have "found_at ic r p [] m g [] []"
      by (simp add: found_at_def)
    then show ?thesis by blast
  qed
next
  case (Cons c cs)
  show ?case
  proof (cases "rmatch ic r (p, c # cs, [])")
    case (Cons x xs)
    obtain p' s' g' where x: "x = (p', s', g')" by (cases x)
    with Cons Cons.prems have "g' = g" "m = take (length (c # cs) - length s') (c # cs)"
      by auto
    with Cons x have "found_at ic r p (c # cs) m g [] (c # cs)"
      by (simp add: found_at_def)
    then show ?thesis by blast
  next
    case Nil
    with Cons.prems have "search_from ic r (Some c) cs = Some (m, g)" by simp
    from Cons.IH [OF this] obtain pre u where h: "found_at ic r (Some c) cs m g pre u"
      by blast
    have "\<forall>pre' u'. c # cs = pre' @ u' \<and> length pre' < length (c # pre) \<longrightarrow>
             rmatch ic r (last_or p pre', u', []) = []"
    proof (intro allI impI)
      fix pre' u' assume a: "c # cs = pre' @ u' \<and> length pre' < length (c # pre)"
      show "rmatch ic r (last_or p pre', u', []) = []"
      proof (cases pre')
        case Nil
        with a \<open>rmatch ic r (p, c # cs, []) = []\<close> show ?thesis by simp
      next
        case (Cons y ys)
        with a have "cs = ys @ u' \<and> length ys < length pre" "y = c" by auto
        with h Cons show ?thesis by (auto simp: found_at_def)
      qed
    qed
    with h have "found_at ic r p (c # cs) m g (c # pre) u"
      by (simp add: found_at_def)
    then show ?thesis by blast
  qed
qed

lemma phone_at_split:
  assumes "phone_at s i t"
  shows "drop i s = t @ drop (length t) (drop i s)"
proof -
  have "take (length t) (drop i s) @ drop (length t) (drop i s) = drop i s"
    by (rule append_take_drop_id)
  moreover from assms have "take (length t) (drop i s) = t" by (simp add: phone_at_def)
  ultimately show ?thesis by simp
qed

lemma phone_at_rest: "phone_at s i t \<Longrightarrow> phone_rest (drop i s) = Some (drop (length t) (drop i s))"
proof -
  assume a: "phone_at s i t"
  then have "phone_form t" by (simp add: phone_at_def)
  from phone_form_rest [OF this, of "drop (length t) (drop i s)"] phone_at_split [OF a]
  show ?thesis by simp
qed

lemma rest_phone_at:
  assumes "s = pre @ u" and "phone_rest u = Some r"
  shows "\<exists>t. phone_at s (length pre) t \<and> u = t @ r"
proof -
  from phone_rest_form [OF assms(2)] obtain t where t: "u = t @ r" "phone_form t" by blast
  with assms(1) have "phone_at s (length pre) t" by (simp add: phone_at_def)
  with t show ?thesis by blast
qed

lemma rmatch_phone_at:
  assumes "s = pre @ u" and "\<forall>t. \<not> phone_at s (length pre) t"
  shows "rmatch False phone_rx (p, u, g) = []"
proof -
  from rmatch_phone [of p u g] obtain p' where
    m: "rmatch False phone_rx (p, u, g) = (case phone_rest u of None \<Rightarrow> [] | Some r \<Rightarrow> [(p', r, g)])"
    by blast
  show ?thesis
  proof (cases "phone_rest u")
    case None
    with m show ?thesis by simp
  next
    case (Some r)
    from rest_phone_at [OF assms(1) Some] assms(2) show ?thesis by blast
  qed
qed

lemma phone_search_none:
  assumes "\<forall>i t. \<not> phone_at s i t"
  shows "re_search False phone_rx s = None"
proof -
  have "\<forall>pre u. s = pre @ u \<longrightarrow> rmatch False phone_rx (last_or None pre, u, []) = []"
  proof (intro allI impI)
    fix pre u assume "s = pre @ u"
    moreover from assms have "\<forall>t. \<not> phone_at s (length pre) t" by blast
    ultimately show "rmatch False phone_rx (last_or None pre, u, []) = []"
      by (rule rmatch_phone_at)
  qed
  then have "search_from False phone_rx None s = None"
    by (simp only: search_from_None)
  then show ?thesis by (simp add: re_search_def)
qed

lemma phone_search_first:
  assumes at: "phone_at s i t" and first: "\<forall>j<i. \<forall>t'. \<not> phone_at s j t'"
  shows "re_search False phone_rx s = Some (t, [])"
proof -
  let ?pre = "take i s" and ?u = "drop i s"
  let ?post = "drop (length t) ?u"
  from at have i: "i \<le> length s" by (simp add: phone_at_def)
  have u: "?u = t @ ?post" by (rule phone_at_split [OF at])
  from rmatch_phone [of "last_or None ?pre" ?u "[]"] obtain p' where
    "rmatch False phone_rx (last_or None ?pre, ?u, []) =
       (case phone_rest ?u of None \<Rightarrow> [] | Some r \<Rightarrow> [(p', r, [])])" by blast
  with phone_at_rest [OF at]
  have m: "rmatch False phone_rx (last_or None ?pre, ?u, []) = (p', ?post, []) # []"
    by simp
  have e: "\<forall>pre' u'. s = pre' @ u' \<and> length pre' < length ?pre \<longrightarrow>
      rmatch False phone_rx (last_or None pre', u', []) = []"
  proof (intro allI impI)
    fix pre' u' assume a: "s = pre' @ u' \<and> length pre' < length ?pre"
    with i have "length pre' < i" by simp
    with first have n: "\<forall>t'. \<not> phone_at s (length pre') t'" by blast
    from a have "s = pre' @ u'" by simp
    then show "rmatch False phone_rx (last_or None pre', u', []) = []"
      using n by (rule rmatch_phone_at)
  qed
  have s: "s = ?pre @ ?u" by simp
  have "search_from False phone_rx None s = Some (take (length ?u - length ?post) ?u, [])"
    by (rule search_from_first [OF s e m])
  moreover have "take (length ?u - length ?post) ?u = t"
  proof -
    from u have "length ?u = length t + length ?post" by (metis length_append)
    then have "length ?u - length ?post = length t" by simp
    moreover from at have "take (length t) ?u = t" by (simp add: phone_at_def)
    ultimately show ?thesis by simp
  qed
  ultimately show ?thesis by (simp add: re_search_def)
qed

lemma phone_search_found:
  assumes "re_search False phone_rx s = Some (t, g)"
  shows "\<exists>i. phone_at s i t \<and> (\<forall>j<i. \<forall>t'. \<not> phone_at s j t')"
proof -
  from assms have "search_from False phone_rx None s = Some (t, g)" by (simp add: re_search_def)
  from search_from_Some [OF this] obtain pre u where f: "found_at False phone_rx None s t g pre u"
    by blast
  then obtain p' s' xs where
    s: "s = pre @ u" and
    m: "rmatch False phone_rx (last_or None pre, u, []) = (p', s', g) # xs" and
    t: "t = take (length u - length s') u"
    unfolding found_at_def by blast
  from f have e: "\<And>pre' u'. s = pre' @ u' \<Longrightarrow> length pre' < length pre \<Longrightarrow>
      rmatch False phone_rx (last_or None pre', u', []) = []"
    unfolding found_at_def by blast
  from rmatch_phone [of "last_or None pre" u "[]"] m have "phone_rest u = Some s'"
    by (cases "phone_rest u") auto
  from rest_phone_at [OF s this] obtain t0 where t0: "phone_at s (length pre) t0" "u = t0 @ s'"
    by blast
  with t have "t = t0" by simp
  have "\<forall>j<length pre. \<forall>t'. \<not> phone_at s j t'"
  proof (intro allI impI notI)
    fix j t' assume j: "j < length pre" and a: "phone_at s j t'"
    from j s have "s = take j s @ drop j s" "length (take j s) < length pre" by simp_all
    then have n: "rmatch False phone_rx (last_or None (take j s), drop j s, []) = []" by (rule e)
    from rmatch_phone [of "last_or None (take j s)" "drop j s" "[]"] phone_at_rest [OF a] n
    show False by auto
  qed
  with t0(1) \<open>t = t0\<close> show ?thesis by blast
qed

lemma phone_search_none_conv:
  assumes "re_search False phone_rx s = None"
  shows "\<not> phone_at s i t"
proof
  assume a: "phone_at s i t"
  then have i: "i \<le> length s" by (simp add: phone_at_def)
  from assms have "search_from False phone_rx None s = None" by (simp add: re_search_def)
  then have "\<forall>pre u. s = pre @ u \<longrightarrow> rmatch False phone_rx (last_or None pre, u, []) = []"
    by (simp only: search_from_None)
  moreover have "s = take i s @ drop i s" by simp
  ultimately have n: "rmatch False phone_rx (last_or None (take i s), drop i s, []) = []"
    by blast
  from rmatch_phone [of "last_or None (take i s)" "drop i s" "[]"] phone_at_rest [OF a] n
  show False by auto
qed

lemma split_replaced_acc:
  "CHR ''|'' \<notin> set s \<Longrightarrow>
     str_split_chr_acc CHR ''|'' cur (str_replace_chr CHR 0x0A CHR ''|'' s) =
     str_split_chr_acc CHR 0x0A cur s"
  by (induction s arbitrary: cur) (auto simp: str_replace_chr_def)

lemma split_replaced:
  "CHR ''|'' \<notin> set s \<Longrightarrow>
     str_split_chr CHR ''|'' (str_replace_chr CHR 0x0A CHR ''|'' s) = str_lines s"
  by (simp add: str_split_chr_def str_lines_def split_replaced_acc)

lemma split_acc_nonempty: "str_split_chr_acc x cur s \<noteq> []"
  by (induction s arbitrary: cur) auto

lemma str_lines_nonempty: "str_lines s \<noteq> []"
  by (simp add: str_lines_def str_split_chr_def split_acc_nonempty)

lemma length_gt_1_tl: "xs \<noteq> [] \<Longrightarrow> (Suc 0 < length xs) = (tl xs \<noteq> [])"
  by (cases xs) auto

lemma str_strip_Nil: "str_strip [] = []"
  by (simp add: str_strip_def str_lstrip_def str_rstrip_def)

lemma parse_address_lines:
  assumes "addr \<noteq> []" and "CHR ''|'' \<notin> set addr"
  shows "attorney_firm (parse_address addr a) = str_strip (hd (str_lines addr))"
    and "attorney_address (parse_address addr a) =
           (if tl (str_lines addr) = [] then attorney_address a
            else str_strip (str_join '' '' (tl (str_lines addr))))"
  using assms str_lines_nonempty [of addr]
  by (auto simp: parse_address_def Let_def split_replaced length_gt_1_tl
        split: option.splits prod.splits)

lemma parse_address_phone:
  assumes "addr \<noteq> []"
  shows "attorney_phone (parse_address addr a) =
           (case re_search False phone_rx addr of None \<Rightarrow> attorney_phone a | Some (m, g) \<Rightarrow> m)"
  using assms
  by (simp add: parse_address_def Let_def split: option.splits prod.splits)

lemma map_service_parse:
  "attorney_firm (map_service md d a) =
     attorney_firm (parse_address (dict_get d ''service_attorney_address'' []) a)"
  "attorney_address (map_service md d a) =
     attorney_address (parse_address (dict_get d ''service_attorney_address'' []) a)"
  "attorney_phone (map_service md d a) =
     attorney_phone (parse_address (dict_get d ''service_attorney_address'' []) a)"
  by (simp_all add: map_service_def parse_address_def Let_def split: option.splits prod.splits)

lemma phone_sample:
  "re_search False phone_rx ''Doe & Associates\<newline>123 Main St\<newline>Columbus, OH (614) 555-1234''
     = Some (''(614) 555-1234'', [])"
  by code_simp

lemma phone_absent:
  "re_search False phone_rx ''Doe & Associates\<newline>123 Main St\<newline>Columbus, OH'' = None"
  by code_simp

section \<open>The classifier: alternatives, literal text, whole words\<close>

lemma in_set_nonempty: "x \<in> set xs \<Longrightarrow> xs \<noteq> []"
  by auto

lemma rmatch_alts_Nil:
  "rs \<noteq> [] \<Longrightarrow> rmatch ic (alts rs) st = [] \<longleftrightarrow> (\<forall>r\<in>set rs. rmatch ic r st = [])"
proof (induction rs rule: alts.induct)
  case 1
  then show ?case by simp
next
  case (2 r)
  show ?case by simp
next
  case (3 r v va)
  then show ?case by simp
qed

lemma rmatch_alts_in:
  "r \<in> set rs \<Longrightarrow> x \<in> set (rmatch ic r st) \<Longrightarrow> x \<in> set (rmatch ic (alts rs) st)"
proof (induction rs rule: alts.induct)
  case 1
  then show ?case by simp
next
  case (2 r')
  then show ?case by simp
next
  case (3 r' v va)
  then show ?case by auto
qed

lemma search_alts:
  assumes "rs \<noteq> []"
  shows "search_from ic (alts rs) p s \<noteq> None \<longleftrightarrow> list_ex (\<lambda>r. search_from ic r p s \<noteq> None) rs"
proof -
  have "search_from ic (alts rs) p s = None \<longleftrightarrow> (\<forall>r\<in>set rs. search_from ic r p s = None)"
    unfolding search_from_None using rmatch_alts_Nil [OF assms] by blast
  then show ?thesis by (auto simp: list_ex_iff)
qed

lemma search_found:
  "rmatch ic r (last_or p pre, u, []) \<noteq> [] \<Longrightarrow> search_from ic r p (pre @ u) \<noteq> None"
  unfolding search_from_None by blast

lemma search_digit:
  "search_from False (One (In [Digit])) p s \<noteq> None \<longleftrightarrow> list_ex is_digit s"
  by (induction s arbitrary: p) auto

lemma rmatch_lit:
  "map lower_char w = map lower_char l \<Longrightarrow>
     rmatch True (lit l) (p, w @ post, g) = [(last_or p w, post, g)]"
proof (induction l arbitrary: w p rule: lit.induct)
  case 1
  then show ?case by simp
next
  case (2 c)
  then obtain x where "w = [x]" "lower_char x = lower_char c" by (cases w) auto
  then show ?case by (simp add: chr_def)
next
  case (3 c v va)
  then obtain x xs where w: "w = x # xs" "lower_char x = lower_char c"
    "map lower_char xs = map lower_char (v # va)" by (cases w) auto
  from "3.IH" [OF w(3), of "Some x"] w show ?case by (simp add: chr_def)
qed

lemma lower_word:
  assumes "97 \<le> code (lower_char c)" and "code (lower_char c) \<le> 122"
  shows "is_word c"
proof (cases "(65 \<le> code c \<and> code c \<le> 90) \<or> (192 \<le> code c \<and> code c \<le> 222 \<and> code c \<noteq> 215)")
  case True
  then show ?thesis
  proof
    assume "65 \<le> code c \<and> code c \<le> 90"
    then show ?thesis by (simp add: is_word_def Let_def)
  next
    assume h: "192 \<le> code c \<and> code c \<le> 222 \<and> code c \<noteq> 215"
    then have "lower_char c = char_of (code c + 32)" by (simp add: lower_char_def Let_def)
    then have "code (lower_char c) = (code c + 32) mod 256" by (simp add: code_def)
    with h have "code (lower_char c) = code c + 32" by simp
    with h assms show ?thesis by simp
  qed
next
  case False
  then have "lower_char c = c" by (auto simp: lower_char_def Let_def)
  with assms show ?thesis by (simp add: is_word_def Let_def)
qed

lemma rmatch_words:
  assumes l: "l \<in> set ws" and w: "map lower_char w = map lower_char l"
    and b1: "at_boundary p (w @ post)" and b2: "at_boundary (last_or p w) post"
  shows "rmatch True (words ws) (p, w @ post, g) \<noteq> []"
proof -
  have "lit l \<in> set (map lit ws)" using l by simp
  moreover have "(last_or p w, post, g) \<in> set (rmatch True (lit l) (p, w @ post, g))"
    using rmatch_lit [OF w] by simp
  ultimately have "(last_or p w, post, g) \<in> set (rmatch True (alts (map lit ws)) (p, w @ post, g))"
    by (rule rmatch_alts_in)
  then have "(last_or p w, post, g @ [w]) \<in>
      set (rmatch True (Grp (alts (map lit ws))) (p, w @ post, g))"
    by (force simp: image_iff)
  moreover have "(last_or p w, post, g @ [w]) \<in> set (rmatch True WordB (last_or p w, post, g @ [w]))"
    using b2 by simp
  ultimately have "(last_or p w, post, g @ [w]) \<in>
      set (concat (map (rmatch True WordB) (rmatch True (Grp (alts (map lit ws))) (p, w @ post, g))))"
    unfolding set_concat by (intro UN_I [where a = "rmatch True WordB (last_or p w, post, g @ [w])"])
      (auto simp del: rmatch.simps)
  moreover have "rmatch True (words ws) (p, w @ post, g) =
      concat (map (rmatch True WordB) (rmatch True (Grp (alts (map lit ws))) (p, w @ post, g)))"
    using b1 by (simp add: words_def wb_def del: rmatch.simps(10))
  ultimately have "(last_or p w, post, g @ [w]) \<in> set (rmatch True (words ws) (p, w @ post, g))"
    by (simp only:)
  then show ?thesis by (rule in_set_nonempty)
qed

lemma boundaries:
  assumes "whole_word pre post" and "w \<noteq> []" and "is_word (hd w)" and "is_word (last w)"
  shows "at_boundary (last_or None pre) (w @ post)" and "at_boundary (last_or (last_or None pre) w) post"
proof -
  from assms(2) obtain c cs where w: "w = c # cs" by (cases w) auto
  with assms(1,3) show "at_boundary (last_or None pre) (w @ post)"
    by (auto simp: at_boundary_def whole_word_def last_or_def)
  from assms(1,2,4) show "at_boundary (last_or (last_or None pre) w) post"
    by (cases post) (auto simp: at_boundary_def whole_word_def last_or_def)
qed

lemma word_found:
  assumes l: "l \<in> set ws" and w: "map lower_char w = l"
    and low: "map lower_char l = l" and ne: "l \<noteq> []"
    and c1: "97 \<le> code (hd l) \<and> code (hd l) \<le> 122"
    and c2: "97 \<le> code (last l) \<and> code (last l) \<le> 122"
    and ww: "whole_word pre post"
  shows "re_search True (words ws) (pre @ w @ post) \<noteq> None"
proof -
  from w ne have wne: "w \<noteq> []" by auto
  from w wne have "hd l = lower_char (hd w)" "last l = lower_char (last w)"
    by (auto simp: hd_map last_map)
  with c1 c2 have iw: "is_word (hd w)" "is_word (last w)"
    by (auto intro: lower_word)
  from w low have m: "map lower_char w = map lower_char l" by simp
  from rmatch_words [OF l m boundaries [OF ww wne iw], of "[]"]
  have "rmatch True (words ws) (last_or None pre, w @ post, []) \<noteq> []" .
  then show ?thesis unfolding re_search_def by (rule search_found)
qed

lemma lit_found:
  assumes w: "map lower_char w = l" and low: "map lower_char l = l"
  shows "re_search True (lit l) (pre @ w @ post) \<noteq> None"
proof -
  from w low have "map lower_char w = map lower_char l" by simp
  from rmatch_lit [OF this, of "last_or None pre" post "[]"]
  have "rmatch True (lit l) (last_or None pre, w @ post, []) \<noteq> []" by simp
  then show ?thesis unfolding re_search_def by (rule search_found)
qed

lemma company_patterns_nonempty: "company_patterns \<noteq> []"
  by (simp add: company_patterns_def)

lemma cue_search: "re_search True (alts company_patterns) name \<noteq> None \<longleftrightarrow> cue_matches name"
  unfolding re_search_def cue_matches_def
  by (rule search_alts [OF company_patterns_nonempty])

lemma count_positive: "0 < str_count x s \<longleftrightarrow> x \<in> set s"
  by (induction s) (auto simp: str_count_def)

lemma count_absent: "x \<notin> set s \<Longrightarrow> str_count x s = 0"
  by (induction s) (auto simp: str_count_def)

lemma is_company_signals:
  "is_company name \<longleftrightarrow>
     cue_matches name \<or> CHR ''&'' \<in> set name \<or> 1 < str_count CHR '','' name \<or>
     list_ex is_digit name \<or> 4 < length (str_split name)"
proof -
  have "re_search False (One (In [Digit])) name \<noteq> None \<longleftrightarrow> list_ex is_digit name"
    unfolding re_search_def by (rule search_digit)
  then show ?thesis
    unfolding is_company_def company_indicators_def cue_search
    by (simp add: count_positive del: rmatch.simps)
qed

lemma cue_in: "p \<in> set company_patterns \<Longrightarrow> re_search True p name \<noteq> None \<Longrightarrow> cue_matches name"
  by (auto simp: cue_matches_def list_ex_iff)

lemma entity_pattern:
  "words [''llc'', ''inc'', ''corp'', ''ltd'', ''llp'', ''lp'', ''plc''] \<in> set company_patterns"
  by (simp add: company_patterns_def)

lemma bank_pattern:
  "words [''bank'', ''trust company'', ''banking'', ''financial'', ''credit union'']
     \<in> set company_patterns"
  by (simp add: company_patterns_def)

lemma doe_pattern: "lit ''john doe'' \<in> set company_patterns"
  by (simp add: company_patterns_def)

lemma lower_llc: "map lower_char ''llc'' = ''llc''"
  by (simp add: lower_char_def code_def)

lemma lower_inc: "map lower_char ''inc'' = ''inc''"
  by (simp add: lower_char_def code_def)

lemma lower_bank: "map lower_char ''bank'' = ''bank''"
  by (simp add: lower_char_def code_def)

lemma lower_john_doe: "map lower_char ''john doe'' = ''john doe''"
  by (simp add: lower_char_def code_def)

lemma cue_llc:
  assumes "str_lower w = ''llc''" and "whole_word pre post"
  shows "cue_matches (pre @ w @ post)"
proof -
  from assms(1) have w: "map lower_char w = ''llc''" by (simp add: str_lower_def)
  have "re_search True (words [''llc'', ''inc'', ''corp'', ''ltd'', ''llp'', ''lp'', ''plc''])
          (pre @ w @ post) \<noteq> None"
    by (rule word_found [OF _ w lower_llc _ _ _ assms(2)]) (simp_all add: code_def)
  with entity_pattern show ?thesis by (rule cue_in)
qed

lemma cue_inc:
  assumes "str_lower w = ''inc''" and "whole_word pre post"
  shows "cue_matches (pre @ w @ post)"
proof -
  from assms(1) have w: "map lower_char w = ''inc''" by (simp add: str_lower_def)
  have "re_search True (words [''llc'', ''inc'', ''corp'', ''ltd'', ''llp'', ''lp'', ''plc''])
          (pre @ w @ post) \<noteq> None"
    by (rule word_found [OF _ w lower_inc _ _ _ assms(2)]) (simp_all add: code_def)
  with entity_pattern show ?thesis by (rule cue_in)
qed

lemma cue_bank:
  assumes "str_lower w = ''bank''" and "whole_word pre post"
  shows "cue_matches (pre @ w @ post)"
proof -
  from assms(1) have w: "map lower_char w = ''bank''" by (simp add: str_lower_def)
  have "re_search True (words [''bank'', ''trust company'', ''banking'', ''financial'', ''credit union''])
          (pre @ w @ post) \<noteq> None"
    by (rule word_found [OF _ w lower_bank _ _ _ assms(2)]) (simp_all add: code_def)
  with bank_pattern show ?thesis by (rule cue_in)
qed

lemma cue_john_doe:
  assumes "str_lower w = ''john doe''"
  shows "cue_matches (pre @ w @ post)"
proof -
  from assms have w: "map lower_char w = ''john doe''" by (simp add: str_lower_def)
  have "re_search True (lit ''john doe'') (pre @ w @ post) \<noteq> None"
    by (rule lit_found [OF w lower_john_doe])
  with doe_pattern show ?thesis by (rule cue_in)
qed

lemma ic_tyra_banks: "\<not> is_company ''Tyra Banks''"
  by code_simp

lemma ic_temple_grandin: "is_company ''Temple Grandin''"
  by code_simp

lemma no_cue_jane_smith: "\<not> cue_matches ''Jane Smith''"
  by code_simp

section \<open>The two-phase search of the resolver\<close>

text \<open>
  Claim C1. For every main defendant and every page, \<open>find_proof_of_service_fast\<close> returns
  the record of \<open>resolve_service\<close> and has inspected the rows of \<open>resolve_rows\<close>, and no
  other: in each delivery method, the primary phase returns the first candidate, in page
  order, whose served name and the main defendant contain one another ignoring case, in
  either direction; when it finds none, the fallback phase returns the first candidate of
  the same list whose served name is non-empty and is classified as an individual;
  CERTIFIED MAIL is searched before PROCESS SERVER, and when both phases of both methods
  find nothing the result is absent. A phase returns \<open>d\<close> exactly when \<open>d\<close> passes its
  test and no candidate before \<open>d\<close> does. Each scan returns at once: when a row passes the
  test of the scan and no row before it does, the scan returns the record of that row and
  has inspected the rows up to that one only, none of the rows after it; when no row
  passes, it returns nothing and has inspected every row.
\<close>

theorem resolver_two_phase:
  "find_proof_of_service_fast drv md =
     (resolve_service drv md, drv\<lparr>inspected := inspected drv @ resolve_rows drv md\<rparr>) \<and>
   (primary_phase md cs = Some d \<longleftrightarrow>
      (\<exists>pre post. cs = pre @ d # post \<and>
         (ci_contains (served_name d) md \<or> ci_contains md (served_name d)) \<and>
         (\<forall>e\<in>set pre. \<not> (ci_contains (served_name e) md \<or> ci_contains md (served_name e))))) \<and>
   (fallback_phase cs = Some d \<longleftrightarrow>
      (\<exists>pre post. cs = pre @ d # post \<and>
         (served_name d \<noteq> [] \<and> \<not> is_company (served_name d)) \<and>
         (\<forall>e\<in>set pre. \<not> (served_name e \<noteq> [] \<and> \<not> is_company (served_name e))))) \<and>
   (\<forall>pre row post.
      passes (primary_test md) m (snd row) \<and>
      (\<forall>r\<in>set pre. \<not> passes (primary_test md) m (snd r)) \<longrightarrow>
      scan_main drv md m (pre @ row # post) =
        (read_details (snd row) m,
         drv\<lparr>inspected := inspected drv @ map (\<lambda>r. (m, fst r)) (pre @ [row])\<rparr>)) \<and>
   (\<forall>rows.
      (\<forall>r\<in>set rows. \<not> passes (primary_test md) m (snd r)) \<longrightarrow>
      scan_main drv md m rows =
        (None, drv\<lparr>inspected := inspected drv @ map (\<lambda>r. (m, fst r)) rows\<rparr>)) \<and>
   (\<forall>pre row post.
      passes fallback_test m (snd row) \<and>
      (\<forall>r\<in>set pre. \<not> passes fallback_test m (snd r)) \<longrightarrow>
      scan_human drv m (pre @ row # post) =
        (read_details (snd row) m,
         drv\<lparr>inspected := inspected drv @ map (\<lambda>r. (m, fst r)) (pre @ [row])\<rparr>)) \<and>
   (\<forall>rows.
      (\<forall>r\<in>set rows. \<not> passes fallback_test m (snd r)) \<longrightarrow>
      scan_human drv m rows =
        (None, drv\<lparr>inspected := inspected drv @ map (\<lambda>r. (m, fst r)) rows\<rparr>))"
proof (intro conjI allI impI)
  show "find_proof_of_service_fast drv md =
     (resolve_service drv md, drv\<lparr>inspected := inspected drv @ resolve_rows drv md\<rparr>)"
    by (rule resolver_full)
next
  show "primary_phase md cs = Some d \<longleftrightarrow>
      (\<exists>pre post. cs = pre @ d # post \<and>
         (ci_contains (served_name d) md \<or> ci_contains md (served_name d)) \<and>
         (\<forall>e\<in>set pre. \<not> (ci_contains (served_name e) md \<or> ci_contains md (served_name e))))"
    unfolding primary_phase_def by (rule find_first)
next
  show "fallback_phase cs = Some d \<longleftrightarrow>
      (\<exists>pre post. cs = pre @ d # post \<and>
         (served_name d \<noteq> [] \<and> \<not> is_company (served_name d)) \<and>
         (\<forall>e\<in>set pre. \<not> (served_name e \<noteq> [] \<and> \<not> is_company (served_name e))))"
    unfolding fallback_phase_def by (rule find_first)
next
  fix pre post :: "(nat \<times> docket_row) list" and row :: "nat \<times> docket_row"
  assume "passes (primary_test md) m (snd row) \<and>
      (\<forall>r\<in>set pre. \<not> passes (primary_test md) m (snd r))"
  then show "scan_main drv md m (pre @ row # post) =
        (read_details (snd row) m,
         drv\<lparr>inspected := inspected drv @ map (\<lambda>r. (m, fst r)) (pre @ [row])\<rparr>)"
    using scan_main_stops [of md m row pre drv post] by blast
next
  fix rows :: "(nat \<times> docket_row) list"
  assume "\<forall>r\<in>set rows. \<not> passes (primary_test md) m (snd r)"
  then show "scan_main drv md m rows =
        (None, drv\<lparr>inspected := inspected drv @ map (\<lambda>r. (m, fst r)) rows\<rparr>)"
    by (rule scan_main_exhausts)
next
  fix pre post :: "(nat \<times> docket_row) list" and row :: "nat \<times> docket_row"
  assume "passes fallback_test m (snd row) \<and>
      (\<forall>r\<in>set pre. \<not> passes fallback_test m (snd r))"
  then show "scan_human drv m (pre @ row # post) =
        (read_details (snd row) m,
         drv\<lparr>inspected := inspected drv @ map (\<lambda>r. (m, fst r)) (pre @ [row])\<rparr>)"
    using scan_human_stops [of m row pre drv post] by blast
next
  fix rows :: "(nat \<times> docket_row) list"
  assume "\<forall>r\<in>set rows. \<not> passes fallback_test m (snd r)"
  then show "scan_human drv m rows =
        (None, drv\<lparr>inspected := inspected drv @ map (\<lambda>r. (m, fst r)) rows\<rparr>)"
    by (rule scan_human_exhausts)
qed

text \<open>
  On the page with the rows of ABC Bank and Jane Smith: the main defendant Jane Smith is
  found by the primary phase, the main defendant John Roe gets Jane Smith's record from the
  fallback phase, and a page with the row of ABC Bank only gives no record. With Jane
  Smith's row first, the search for Jane Smith inspects that row and no other. With the
  rows of ABC Bank, Jane Smith and ABC Bank, the search for John Roe inspects the three
  rows in the primary phase and the first two in the fallback phase; over these rows the
  primary scan for Jane Smith and the fallback scan both stop at the second.
\<close>

theorem resolver_two_phase_witness:
  "map_option served_name
     (fst (find_proof_of_service_fast (page [''Jane Smith''] [bank_row, smith_row] []) ''Jane Smith''))
     = Some ''Jane Smith'' \<and>
   map_option served_name
     (fst (find_proof_of_service_fast (page [''Jane Smith''] [bank_row, smith_row] []) ''John Roe''))
     = Some ''Jane Smith'' \<and>
   fst (find_proof_of_service_fast (page [''Jane Smith''] [] [bank_row]) ''Jane Smith'') = None \<and>
   inspected (snd (find_proof_of_service_fast
       (page [''Jane Smith''] [smith_row, bank_row, bank_row] []) ''Jane Smith''))
     = [(''CERTIFIED MAIL'', 0)] \<and>
   inspected (snd (find_proof_of_service_fast
       (page [''Jane Smith''] [bank_row, smith_row, bank_row] []) ''John Roe''))
     = [(''CERTIFIED MAIL'', 0), (''CERTIFIED MAIL'', 1), (''CERTIFIED MAIL'', 2),
        (''CERTIFIED MAIL'', 0), (''CERTIFIED MAIL'', 1)] \<and>
   inspected (snd (scan_main (page [''Jane Smith''] [] []) ''Jane Smith'' ''CERTIFIED MAIL''
       [(0, bank_row), (1, smith_row), (2, bank_row)]))
     = [(''CERTIFIED MAIL'', 0), (''CERTIFIED MAIL'', 1)] \<and>
   inspected (snd (scan_human (page [''Jane Smith''] [] []) ''CERTIFIED MAIL''
       [(0, bank_row), (1, smith_row), (2, bank_row)]))
     = [(''CERTIFIED MAIL'', 0), (''CERTIFIED MAIL'', 1)]"
proof -
  let ?p = "page [''Jane Smith''] [] []"
  have a: "map_option served_name
     (resolve_service (page [''Jane Smith''] [bank_row, smith_row] []) ''Jane Smith'') = Some ''Jane Smith''"
    by (simp add: resolve_eval page_eval str_eval ic_abc_bank ic_jane_smith)
  have b: "map_option served_name
     (resolve_service (page [''Jane Smith''] [bank_row, smith_row] []) ''John Roe'') = Some ''Jane Smith''"
    by (simp add: resolve_eval page_eval str_eval ic_abc_bank ic_jane_smith)
  have c: "resolve_service (page [''Jane Smith''] [] [bank_row]) ''Jane Smith'' = None"
    by (simp add: resolve_eval page_eval str_eval ic_abc_bank ic_jane_smith)
  have d: "resolve_rows (page [''Jane Smith''] [smith_row, bank_row, bank_row] []) ''Jane Smith''
             = [(''CERTIFIED MAIL'', 0)]"
    by (simp add: trace_eval resolve_eval page_eval str_eval ic_abc_bank ic_jane_smith)
  have e: "resolve_rows (page [''Jane Smith''] [bank_row, smith_row, bank_row] []) ''John Roe''
             = [(''CERTIFIED MAIL'', 0), (''CERTIFIED MAIL'', 1), (''CERTIFIED MAIL'', 2),
                (''CERTIFIED MAIL'', 0), (''CERTIFIED MAIL'', 1)]"
    by (simp add: trace_eval resolve_eval page_eval str_eval ic_abc_bank ic_jane_smith upt_rec)
  have p1: "passes (primary_test ''Jane Smith'') ''CERTIFIED MAIL'' (snd (1::nat, smith_row))"
    by (simp add: trace_eval resolve_eval page_eval str_eval)
  have p0: "\<forall>r\<in>set [(0::nat, bank_row)]. \<not> passes (primary_test ''Jane Smith'') ''CERTIFIED MAIL'' (snd r)"
    by (simp add: trace_eval resolve_eval page_eval str_eval)
  have f1: "passes fallback_test ''CERTIFIED MAIL'' (snd (1::nat, smith_row))"
    by (simp add: trace_eval resolve_eval page_eval str_eval ic_jane_smith)
  have f0: "\<forall>r\<in>set [(0::nat, bank_row)]. \<not> passes fallback_test ''CERTIFIED MAIL'' (snd r)"
    by (simp add: trace_eval resolve_eval page_eval str_eval ic_abc_bank)
  note t = resolver_two_phase [of ?p "''Jane Smith''" _ _ "''CERTIFIED MAIL''"]
  from t p1 p0 have g: "scan_main ?p ''Jane Smith'' ''CERTIFIED MAIL''
       ([(0, bank_row)] @ (1, smith_row) # [(2, bank_row)]) =
     (read_details (snd (1::nat, smith_row)) ''CERTIFIED MAIL'',
      ?p\<lparr>inspected := inspected ?p @
         map (\<lambda>r. (''CERTIFIED MAIL'', fst r)) ([(0, bank_row)] @ [(1, smith_row)])\<rparr>)"
    by blast
  from t f1 f0 have h: "scan_human ?p ''CERTIFIED MAIL''
       ([(0, bank_row)] @ (1, smith_row) # [(2, bank_row)]) =
     (read_details (snd (1::nat, smith_row)) ''CERTIFIED MAIL'',
      ?p\<lparr>inspected := inspected ?p @
         map (\<lambda>r. (''CERTIFIED MAIL'', fst r)) ([(0, bank_row)] @ [(1, smith_row)])\<rparr>)"
    by blast
  have i: "inspected ?p = []" by (simp add: page_def)
  show ?thesis
    using a b c d e g h i
      resolver_two_phase [of "page [''Jane Smith''] [bank_row, smith_row] []" "''Jane Smith''"]
      resolver_two_phase [of "page [''Jane Smith''] [bank_row, smith_row] []" "''John Roe''"]
      resolver_two_phase [of "page [''Jane Smith''] [] [bank_row]" "''Jane Smith''"]
      resolver_two_phase [of "page [''Jane Smith''] [smith_row, bank_row, bank_row] []" "''Jane Smith''"]
      resolver_two_phase [of "page [''Jane Smith''] [bank_row, smith_row, bank_row] []" "''John Roe''"]
    by (simp add: page_def del: scan_main.simps scan_human.simps)
qed

section \<open>The signals of the classifier\<close>

text \<open>
  Claim C2 says that every name containing \<open>Bank\<close> is an organization and that a plain
  two-token name without digits, ampersands or commas is an individual. The name Tyra
  Banks contains \<open>Bank\<close> and is classified as an individual; the name Temple Grandin
  has two tokens and no digit, ampersand or comma, and is classified as an organization.
\<close>

theorem classifier_exceptions:
  "str_in ''Bank'' ''Tyra Banks'' \<and> \<not> is_company ''Tyra Banks'' \<and>
   length (str_split ''Temple Grandin'') = 2 \<and> \<not> list_ex is_digit ''Temple Grandin'' \<and>
   CHR ''&'' \<notin> set ''Temple Grandin'' \<and> CHR '','' \<notin> set ''Temple Grandin'' \<and>
   is_company ''Temple Grandin''"
  using ic_tyra_banks ic_temple_grandin
  by (simp add: str_split_def is_space_def is_digit_def code_def)

text \<open>
  Claim C2, amended. The classifier returns Organization exactly when a lexical cue of the
  catalogue matches, ignoring case, or the name contains an ampersand, more than one
  comma, a digit, or more than four whitespace-separated tokens; it returns Individual
  otherwise. In particular a name that contains \<open>LLC\<close>, \<open>Inc\<close> or \<open>Bank\<close> as a whole
  word, in any case, is an organization; so is a name that contains \<open>John Doe\<close> anywhere,
  in any case, and a name of more than four tokens. A name of two tokens without digit,
  ampersand or comma is an individual provided that no lexical cue matches it.
\<close>

theorem classifier_signals:
  "(is_company name \<longleftrightarrow>
      cue_matches name \<or> CHR ''&'' \<in> set name \<or> 1 < str_count CHR '','' name \<or>
      list_ex is_digit name \<or> 4 < length (str_split name)) \<and>
   (\<forall>pre w post. name = pre @ w @ post \<and>
        (str_lower w = ''llc'' \<or> str_lower w = ''inc'' \<or> str_lower w = ''bank'') \<and>
        whole_word pre post \<longrightarrow> is_company name) \<and>
   (\<forall>pre w post. name = pre @ w @ post \<and> str_lower w = ''john doe'' \<longrightarrow> is_company name) \<and>
   (4 < length (str_split name) \<longrightarrow> is_company name) \<and>
   (length (str_split name) = 2 \<and> \<not> list_ex is_digit name \<and> CHR ''&'' \<notin> set name \<and>
    CHR '','' \<notin> set name \<and> \<not> cue_matches name \<longrightarrow> \<not> is_company name)"
proof (intro conjI allI impI)
  show "is_company name \<longleftrightarrow>
      cue_matches name \<or> CHR ''&'' \<in> set name \<or> 1 < str_count CHR '','' name \<or>
      list_ex is_digit name \<or> 4 < length (str_split name)"
    by (rule is_company_signals)
next
  fix pre w post
  assume h: "name = pre @ w @ post \<and>
        (str_lower w = ''llc'' \<or> str_lower w = ''inc'' \<or> str_lower w = ''bank'') \<and>
        whole_word pre post"
  then have "cue_matches (pre @ w @ post)"
    using cue_llc [of w pre post] cue_inc [of w pre post] cue_bank [of w pre post] by blast
  with h show "is_company name" by (simp add: is_company_signals)
next
  fix pre w post
  assume h: "name = pre @ w @ post \<and> str_lower w = ''john doe''"
  then have "cue_matches (pre @ w @ post)" using cue_john_doe [of w pre post] by blast
  with h show "is_company name" by (simp add: is_company_signals)
next
  assume "4 < length (str_split name)"
  then show "is_company name" by (simp add: is_company_signals)
next
  assume "length (str_split name) = 2 \<and> \<not> list_ex is_digit name \<and> CHR ''&'' \<notin> set name \<and>
    CHR '','' \<notin> set name \<and> \<not> cue_matches name"
  then show "\<not> is_company name" by (simp add: is_company_signals count_absent)
qed

text \<open>
  Acme LLC, John Doe and a name of five tokens are organizations; Jane Smith is an
  individual.
\<close>

theorem classifier_signals_witness:
  "is_company ''Acme LLC'' \<and> is_company ''John Doe'' \<and> is_company ''a b c d e'' \<and>
   \<not> is_company ''Jane Smith''"
proof -
  have l: "str_lower ''LLC'' = ''llc''"
    by (simp add: str_lower_def lower_char_def code_def char_of_eq_iff char_eq_char_of)
  have w: "whole_word ''Acme '' []"
    by (simp add: whole_word_def is_word_def code_def)
  have "''Acme LLC'' = ''Acme '' @ ''LLC'' @ [] \<and>
        (str_lower ''LLC'' = ''llc'' \<or> str_lower ''LLC'' = ''inc'' \<or> str_lower ''LLC'' = ''bank'') \<and>
        whole_word ''Acme '' []"
    using l w by simp
  with classifier_signals [of "''Acme LLC''"] have 1: "is_company ''Acme LLC''" by blast
  have j: "str_lower ''John Doe'' = ''john doe''"
    by (simp add: str_lower_def lower_char_def code_def char_of_eq_iff char_eq_char_of)
  then have "''John Doe'' = [] @ ''John Doe'' @ [] \<and> str_lower ''John Doe'' = ''john doe''"
    by simp
  with classifier_signals [of "''John Doe''"] have 2: "is_company ''John Doe''" by blast
  have "4 < length (str_split ''a b c d e'')"
    by (simp add: str_split_def is_space_def code_def)
  with classifier_signals [of "''a b c d e''"] have 3: "is_company ''a b c d e''" by blast
  have "length (str_split ''Jane Smith'') = 2 \<and> \<not> list_ex is_digit ''Jane Smith'' \<and>
        CHR ''&'' \<notin> set ''Jane Smith'' \<and> CHR '','' \<notin> set ''Jane Smith'' \<and>
        \<not> cue_matches ''Jane Smith''"
    using no_cue_jane_smith by (simp add: str_split_def is_space_def is_digit_def code_def)
  with classifier_signals [of "''Jane Smith''"] have 4: "\<not> is_company ''Jane Smith''" by blast
  from 1 2 3 4 show ?thesis by simp
qed

section \<open>Main-defendant selection: the policy\<close>

text \<open>
  Claim C3. On the empty list the selection returns the sentinel \<open>No defendants found\<close>.
  Otherwise it returns the first name, in list order, that the classifier does not mark as
  a company; if the classifier marks every name as a company, it returns the first name of
  the list. The value returned is therefore an element of the list or the sentinel.
\<close>

theorem main_defendant_selection:
  "(defendants = [] \<longrightarrow> find_main_defendant defendants = ''No defendants found'') \<and>
   (\<forall>pre n post. defendants = pre @ n # post \<and> list_all is_company pre \<and> \<not> is_company n
      \<longrightarrow> find_main_defendant defendants = n) \<and>
   (defendants \<noteq> [] \<and> list_all is_company defendants
      \<longrightarrow> find_main_defendant defendants = hd defendants) \<and>
   (find_main_defendant defendants \<in> set defendants \<or>
    find_main_defendant defendants = ''No defendants found'')"
proof (intro conjI allI impI)
  assume "defendants = []"
  then show "find_main_defendant defendants = ''No defendants found''"
    by (simp add: find_main_defendant_def)
next
  fix pre n post
  assume h: "defendants = pre @ n # post \<and> list_all is_company pre \<and> \<not> is_company n"
  then have "filter (\<lambda>name. \<not> is_company name) pre = []"
    by (simp add: list_all_iff)
  with h have "filter (\<lambda>name. \<not> is_company name) defendants
      = n # filter (\<lambda>name. \<not> is_company name) post"
    by simp
  with h show "find_main_defendant defendants = n"
    by (simp add: find_main_defendant_def)
next
  assume h: "defendants \<noteq> [] \<and> list_all is_company defendants"
  then have "filter (\<lambda>name. \<not> is_company name) defendants = []"
    by (simp add: list_all_iff)
  with h show "find_main_defendant defendants = hd defendants"
    by (simp add: find_main_defendant_def)
next
  show "find_main_defendant defendants \<in> set defendants \<or>
    find_main_defendant defendants = ''No defendants found''"
  proof (cases "defendants = []")
    case True
    then show ?thesis by (simp add: find_main_defendant_def)
  next
    case False
    let ?ind = "filter (\<lambda>name. \<not> is_company name) defendants"
    show ?thesis
    proof (cases "?ind = []")
      case True
      with False show ?thesis by (simp add: find_main_defendant_def)
    next
      case ne: False
      then have "hd ?ind \<in> set ?ind" by (rule hd_in_set)
      then have "hd ?ind \<in> set defendants" by simp
      with False ne show ?thesis by (simp add: find_main_defendant_def Let_def)
    qed
  qed
qed

theorem main_defendant_selection_witness:
  "find_main_defendant [] = ''No defendants found'' \<and>
   find_main_defendant [''ABC Bank'', ''Jane Smith'', ''XYZ LLC''] = ''Jane Smith'' \<and>
   find_main_defendant [''ABC Bank''] = ''ABC Bank'' \<and>
   (find_main_defendant [''ABC Bank'', ''Jane Smith'', ''XYZ LLC''] \<in> set [''ABC Bank'', ''Jane Smith'', ''XYZ LLC''])"
proof -
  have a: "find_main_defendant [] = ''No defendants found''"
    using main_defendant_selection [of "[]"] by simp
  have "[''ABC Bank'', ''Jane Smith'', ''XYZ LLC''] = [''ABC Bank''] @ ''Jane Smith'' # [''XYZ LLC''] \<and>
        list_all is_company [''ABC Bank''] \<and> \<not> is_company ''Jane Smith''"
    using ic_abc_bank ic_jane_smith by simp
  with main_defendant_selection [of "[''ABC Bank'', ''Jane Smith'', ''XYZ LLC'']"]
  have b: "find_main_defendant [''ABC Bank'', ''Jane Smith'', ''XYZ LLC''] = ''Jane Smith''"
    by blast
  have "[''ABC Bank''] \<noteq> [] \<and> list_all is_company [''ABC Bank'']"
    using ic_abc_bank by simp
  with main_defendant_selection [of "[''ABC Bank'']"]
  have c: "find_main_defendant [''ABC Bank''] = ''ABC Bank''"
    by simp
  from a b c show ?thesis by simp
qed

section \<open>The bounds of the search\<close>

text \<open>
  Claim C4. The rows that a run of the resolver hands to the extraction are rows of
  CERTIFIED MAIL with an index below 5, followed by rows of PROCESS SERVER with an index
  below 5: at most the first five rows of each of the two delivery methods, CERTIFIED MAIL
  first. The result is the same when every list of rows is cut after its fifth row, and it
  does not depend on the rows of any other delivery method.
\<close>

theorem resolver_inspection_bounds:
  "(\<exists>t1 t2. inspected (snd (find_proof_of_service_fast drv md)) = inspected drv @ t1 @ t2 \<and>
      (\<forall>e\<in>set t1. fst e = ''CERTIFIED MAIL'' \<and> snd e < 5) \<and>
      (\<forall>e\<in>set t2. fst e = ''PROCESS SERVER'' \<and> snd e < 5)) \<and>
   fst (find_proof_of_service_fast (drv\<lparr>docket := \<lambda>m. map_option (take 5) (docket drv m)\<rparr>) md) =
     fst (find_proof_of_service_fast drv md) \<and>
   (\<forall>other. other ''CERTIFIED MAIL'' = docket drv ''CERTIFIED MAIL'' \<and>
            other ''PROCESS SERVER'' = docket drv ''PROCESS SERVER'' \<longrightarrow>
      fst (find_proof_of_service_fast (drv\<lparr>docket := other\<rparr>) md) =
        fst (find_proof_of_service_fast drv md))"
proof (intro conjI allI impI)
  show "\<exists>t1 t2. inspected (snd (find_proof_of_service_fast drv md)) = inspected drv @ t1 @ t2 \<and>
      (\<forall>e\<in>set t1. fst e = ''CERTIFIED MAIL'' \<and> snd e < 5) \<and>
      (\<forall>e\<in>set t2. fst e = ''PROCESS SERVER'' \<and> snd e < 5)"
    by (rule resolver_trace)
next
  show "fst (find_proof_of_service_fast (drv\<lparr>docket := \<lambda>m. map_option (take 5) (docket drv m)\<rparr>) md) =
     fst (find_proof_of_service_fast drv md)"
    by (simp only: resolver_result resolve_service_take5)
next
  fix other
  assume "other ''CERTIFIED MAIL'' = docket drv ''CERTIFIED MAIL'' \<and>
          other ''PROCESS SERVER'' = docket drv ''PROCESS SERVER''"
  then show "fst (find_proof_of_service_fast (drv\<lparr>docket := other\<rparr>) md) =
        fst (find_proof_of_service_fast drv md)"
    by (simp add: resolver_result resolve_service_def split: option.splits)
qed

text \<open>
  Five rows of ABC Bank followed by the row of Jane Smith: the sixth row is never inspected
  and the resolver finds nothing for the main defendant Jane Smith.
\<close>

theorem resolver_inspection_bounds_witness:
  "(''CERTIFIED MAIL'', 5) \<notin> set (inspected (snd (find_proof_of_service_fast
       (page [''Jane Smith''] [bank_row, bank_row, bank_row, bank_row, bank_row, smith_row] [])
       ''Jane Smith''))) \<and>
   fst (find_proof_of_service_fast
       (page [''Jane Smith''] [bank_row, bank_row, bank_row, bank_row, bank_row, smith_row] [])
       ''Jane Smith'') = None"
proof -
  let ?p = "page [''Jane Smith''] [bank_row, bank_row, bank_row, bank_row, bank_row, smith_row] []"
  let ?q = "page [''Jane Smith''] [bank_row, bank_row, bank_row, bank_row, bank_row] []"
  note b = resolver_inspection_bounds [of ?p "''Jane Smith''"]
  from b obtain t1 t2 where
    t: "inspected (snd (find_proof_of_service_fast ?p ''Jane Smith'')) = inspected ?p @ t1 @ t2"
       "\<forall>e\<in>set t1. fst e = ''CERTIFIED MAIL'' \<and> snd e < 5"
       "\<forall>e\<in>set t2. fst e = ''PROCESS SERVER'' \<and> snd e < 5"
    by blast
  have i: "inspected ?p = []" by (simp add: page_def)
  have 1: "(''CERTIFIED MAIL'', 5) \<notin> set (inspected (snd (find_proof_of_service_fast ?p ''Jane Smith'')))"
    using t i by auto
  have e: "?p\<lparr>docket := \<lambda>m. map_option (take 5) (docket ?p m)\<rparr> = ?q"
    by (simp add: page_def fun_eq_iff)
  have "resolve_service ?q ''Jane Smith'' = None"
    by (simp add: resolve_eval page_eval str_eval ic_abc_bank ic_jane_smith)
  then have "fst (find_proof_of_service_fast ?q ''Jane Smith'') = None"
    by (simp add: resolver_result)
  with b e have 2: "fst (find_proof_of_service_fast ?p ''Jane Smith'') = None"
    by simp
  from 1 2 show ?thesis by simp
qed

section \<open>The extraction status\<close>

text \<open>
  Claim C5 says that the status is Found only when the resolved record has the field
  \<open>service_attorney_name\<close>. On a page whose only service row names Jane Smith and no
  attorney, the resolved record has no such field and the status is Found.
\<close>

theorem found_without_attorney_field:
  "extraction_status
     (fst (extract_attorney_data (page [''Jane Smith''] [no_attorney_row] []) False False False)) = ''Found'' \<and>
   map_option (\<lambda>d. d ''service_attorney_name'')
     (fst (find_proof_of_service_fast (page [''Jane Smith''] [no_attorney_row] []) ''Jane Smith''))
     = Some None"
proof -
  let ?p = "page [''Jane Smith''] [no_attorney_row] []"
  have r: "map_option (\<lambda>d. d ''service_attorney_name'') (resolve_service ?p ''Jane Smith'') = Some None"
    by (simp add: resolve_eval page_eval str_eval)
  then have "resolve_service ?p ''Jane Smith'' \<noteq> None" by auto
  then have "extraction_status (fst (extract_attorney_data ?p False False False)) = ''Found''"
    using extract_ran [OF ran_page, of "[no_attorney_row]" "[]"]
    by (auto simp: defendants_of_page main_of_jane resolver_result map_service_fields)
  with r show ?thesis by (simp add: resolver_result)
qed

text \<open>
  Claim C5, amended. The status is Found exactly when the resolver ran and returned a
  record, whether or not the record has the field \<open>service_attorney_name\<close>; the attorney
  name is then the value of the field, and empty when the field is absent. The status is
  \<open>No Service Records Found\<close> exactly when the resolver ran and reported absence, and
  then the attorney name, firm, address and phone are empty.
\<close>

theorem extraction_status_found:
  "(extraction_status (fst (extract_attorney_data drv late1 late2 late3)) = ''Found'' \<longleftrightarrow>
      resolver_ran drv late1 late2 late3 \<and>
      fst (find_proof_of_service_fast drv (find_main_defendant (extract_all_defendants_fast drv))) \<noteq> None) \<and>
   (\<forall>d. resolver_ran drv late1 late2 late3 \<and>
        fst (find_proof_of_service_fast drv (find_main_defendant (extract_all_defendants_fast drv))) = Some d
        \<longrightarrow> attorney_name (fst (extract_attorney_data drv late1 late2 late3)) =
              (case d ''service_attorney_name'' of None \<Rightarrow> [] | Some v \<Rightarrow> v)) \<and>
   (extraction_status (fst (extract_attorney_data drv late1 late2 late3)) = ''No Service Records Found'' \<longleftrightarrow>
      resolver_ran drv late1 late2 late3 \<and>
      fst (find_proof_of_service_fast drv (find_main_defendant (extract_all_defendants_fast drv))) = None) \<and>
   (extraction_status (fst (extract_attorney_data drv late1 late2 late3)) = ''No Service Records Found'' \<longrightarrow>
      attorney_name (fst (extract_attorney_data drv late1 late2 late3)) = [] \<and>
      attorney_firm (fst (extract_attorney_data drv late1 late2 late3)) = [] \<and>
      attorney_address (fst (extract_attorney_data drv late1 late2 late3)) = [] \<and>
      attorney_phone (fst (extract_attorney_data drv late1 late2 late3)) = [])"
proof (cases "resolver_ran drv late1 late2 late3")
  case False
  from extract_not_ran [OF False] False show ?thesis by auto
next
  case True
  note e = extract_ran [OF True]
  show ?thesis
  proof (cases "fst (find_proof_of_service_fast drv (find_main_defendant (extract_all_defendants_fast drv)))")
    case None
    with e True show ?thesis by (simp add: scraped_fields)
  next
    case (Some d)
    with e True show ?thesis by (simp add: map_service_fields dict_get_def)
  qed
qed

text \<open>
  The page with Jane Smith's row is Found with her attorney; the page whose only service
  row is the one of ABC Bank has no service record and an empty attorney name.
\<close>

theorem extraction_status_found_witness:
  "extraction_status
     (fst (extract_attorney_data (page [''Jane Smith''] [smith_row] []) False False False)) = ''Found'' \<and>
   attorney_name
     (fst (extract_attorney_data (page [''Jane Smith''] [smith_row] []) False False False)) = ''Ann Lee'' \<and>
   extraction_status
     (fst (extract_attorney_data (page [''Jane Smith''] [] [bank_row]) False False False))
       = ''No Service Records Found'' \<and>
   attorney_name
     (fst (extract_attorney_data (page [''Jane Smith''] [] [bank_row]) False False False)) = []"
proof -
  let ?p = "page [''Jane Smith''] [smith_row] []"
  let ?q = "page [''Jane Smith''] [] [bank_row]"
  obtain d where d: "resolve_service ?p ''Jane Smith'' = Some d"
    and a: "d ''service_attorney_name'' = Some ''Ann Lee''"
    by (simp add: resolve_eval page_eval str_eval)
  have n: "resolve_service ?q ''Jane Smith'' = None"
    by (simp add: resolve_eval page_eval str_eval ic_abc_bank)
  from extraction_status_found [of ?p False False False] d a
  have 1: "extraction_status (fst (extract_attorney_data ?p False False False)) = ''Found'' \<and>
        attorney_name (fst (extract_attorney_data ?p False False False)) = ''Ann Lee''"
    by (simp add: ran_page defendants_of_page main_of_jane resolver_result)
  from extraction_status_found [of ?q False False False] n
  have 2: "extraction_status (fst (extract_attorney_data ?q False False False))
          = ''No Service Records Found'' \<and>
        attorney_name (fst (extract_attorney_data ?q False False False)) = []"
    by (simp add: ran_page defendants_of_page main_of_jane resolver_result)
  from 1 2 show ?thesis by simp
qed

section \<open>The service match\<close>

text \<open>
  Claim C6 says that the match is \<open>Main Defendant\<close> when the served name and the main
  defendant each contain the other. For the main defendant Jane Smith and the served name
  Jane Smith Jr the two names do not contain each other, and the match is
  \<open>Main Defendant\<close>.
\<close>

theorem main_defendant_without_mutual_containment:
  "\<not> (ci_contains ''Jane Smith Jr'' ''Jane Smith'' \<and> ci_contains ''Jane Smith'' ''Jane Smith Jr'') \<and>
   map_option served_name
     (fst (find_proof_of_service_fast (page [''Jane Smith''] [junior_row] []) ''Jane Smith''))
     = Some ''Jane Smith Jr'' \<and>
   service_match
     (fst (extract_attorney_data (page [''Jane Smith''] [junior_row] []) False False False))
     = ''Main Defendant''"
proof -
  let ?p = "page [''Jane Smith''] [junior_row] []"
  have 1: "\<not> (ci_contains ''Jane Smith Jr'' ''Jane Smith'' \<and> ci_contains ''Jane Smith'' ''Jane Smith Jr'')"
    by (simp add: ci_contains_def str_eval)
  obtain d where d: "resolve_service ?p ''Jane Smith'' = Some d"
    and a: "served_name d = ''Jane Smith Jr''"
    by (simp add: resolve_eval page_eval str_eval)
  have c: "ci_contains ''Jane Smith'' ''Jane Smith Jr''"
    by (simp add: ci_contains_def str_eval)
  from d have "fst (extract_attorney_data ?p False False False) =
      map_service ''Jane Smith'' d (scraped ?p)"
    using extract_ran [OF ran_page, of "[junior_row]" "[]"]
    by (simp add: defendants_of_page main_of_jane resolver_result)
  with a c have 3: "service_match (fst (extract_attorney_data ?p False False False)) = ''Main Defendant''"
    by (simp add: map_service_fields)
  from 1 d a 3 show ?thesis by (simp add: resolver_result)
qed

text \<open>
  Claim C6, amended. When the resolver returns a record, the service match is
  \<open>Main Defendant\<close> if the served name contains the main defendant or the main defendant
  contains the served name, ignoring case, and \<open>Other Human Defendant\<close> otherwise. In
  every case whose status is not Found the service match is empty.
\<close>

theorem service_match_kind:
  "(\<forall>d. resolver_ran drv late1 late2 late3 \<and>
        fst (find_proof_of_service_fast drv (find_main_defendant (extract_all_defendants_fast drv))) = Some d
        \<longrightarrow> service_match (fst (extract_attorney_data drv late1 late2 late3)) =
              (if ci_contains (find_main_defendant (extract_all_defendants_fast drv)) (served_name d) \<or>
                  ci_contains (served_name d) (find_main_defendant (extract_all_defendants_fast drv))
               then ''Main Defendant'' else ''Other Human Defendant'')) \<and>
   (extraction_status (fst (extract_attorney_data drv late1 late2 late3)) \<noteq> ''Found'' \<longrightarrow>
      service_match (fst (extract_attorney_data drv late1 late2 late3)) = [])"
proof (cases "resolver_ran drv late1 late2 late3")
  case False
  from extract_not_ran [OF False] False show ?thesis by auto
next
  case True
  note e = extract_ran [OF True]
  show ?thesis
  proof (cases "fst (find_proof_of_service_fast drv (find_main_defendant (extract_all_defendants_fast drv)))")
    case None
    with e True show ?thesis by (simp add: scraped_fields)
  next
    case (Some d)
    with e True show ?thesis by (simp add: map_service_fields)
  qed
qed

text \<open>
  Jane Smith's own row gives \<open>Main Defendant\<close>; the page without a service record leaves
  the match empty.
\<close>

theorem service_match_kind_witness:
  "service_match
     (fst (extract_attorney_data (page [''Jane Smith''] [smith_row] []) False False False))
     = ''Main Defendant'' \<and>
   service_match
     (fst (extract_attorney_data (page [''Jane Smith''] [] [bank_row]) False False False)) = []"
proof -
  let ?p = "page [''Jane Smith''] [smith_row] []"
  let ?q = "page [''Jane Smith''] [] [bank_row]"
  obtain d where d: "resolve_service ?p ''Jane Smith'' = Some d"
    and a: "served_name d = ''Jane Smith''"
    by (simp add: resolve_eval page_eval str_eval)
  have c: "ci_contains ''Jane Smith'' ''Jane Smith''"
    by (simp add: ci_contains_def str_eval)
  from service_match_kind [of ?p False False False] d a c
  have 1: "service_match (fst (extract_attorney_data ?p False False False)) = ''Main Defendant''"
    by (simp add: ran_page defendants_of_page main_of_jane resolver_result)
  have n: "resolve_service ?q ''Jane Smith'' = None"
    by (simp add: resolve_eval page_eval str_eval ic_abc_bank)
  then have "extraction_status (fst (extract_attorney_data ?q False False False)) \<noteq> ''Found''"
    using extract_ran [OF ran_page, of "[]" "[bank_row]"]
    by (simp add: defendants_of_page main_of_jane resolver_result)
  with service_match_kind [of ?q False False False]
  have 2: "service_match (fst (extract_attorney_data ?q False False False)) = []"
    by blast
  from 1 2 show ?thesis by simp
qed

section \<open>Parsing a case number\<close>

text \<open>
  Claim C7 says that a case-number string parses exactly when, after removal of the
  bracketed parts, it consists of two digits, two capital letters and one or more digits.
  The string \<open> 23CV5681\<close>, with a space in front, has no bracketed part and is not of
  that form, and it parses to year 23, type CV and sequence 0005681: the parser removes
  the whitespace at both ends of the string before it removes the bracketed parts.
\<close>

theorem leading_space_parses:
  "re_sub_del False bracket_rx '' 23CV5681'' = '' 23CV5681'' \<and>
   re_match False case_rx '' 23CV5681'' = None \<and>
   \<not> case_form '' 23CV5681'' \<and>
   parse_case_number '' 23CV5681'' =
     Some \<lparr>year = ''23'', case_type = ''CV'', sequence = ''0005681'', original = '' 23CV5681''\<rparr>"
proof (intro conjI)
  show "re_sub_del False bracket_rx '' 23CV5681'' = '' 23CV5681''"
    by code_simp
  show "re_match False case_rx '' 23CV5681'' = None"
    by code_simp
  show "\<not> case_form '' 23CV5681''"
    by (simp add: case_form_def is_digit_def code_def)
  show "parse_case_number '' 23CV5681'' =
     Some \<lparr>year = ''23'', case_type = ''CV'', sequence = ''0005681'', original = '' 23CV5681''\<rparr>"
    by code_simp
qed

text \<open>
  Claim C7, amended. Let \<open>c\<close> be the case-number string after removal of the whitespace
  at both ends and then of the bracketed parts. When \<open>c\<close> consists of two digits, two
  capital letters and one or more digits, parsing yields the first two characters of \<open>c\<close>
  as the year, the next two as the case type and the remaining digits padded with zeros on
  the left to seven characters as the sequence; for every other string parsing yields no
  result.
\<close>

theorem parse_case_number_form:
  "parse_case_number s =
     (if case_form (clean_case s)
      then Some \<lparr>year = take 2 (clean_case s), case_type = take 2 (drop 2 (clean_case s)),
                 sequence = str_zfill 7 (drop 4 (clean_case s)), original = s\<rparr>
      else None)"
proof (cases "s = []")
  case True
  then show ?thesis
    by (simp add: parse_case_number_def clean_case_Nil case_form_def)
next
  case False
  have "re_match False case_rx (clean_case s) =
          (if case_form (clean_case s)
           then Some (clean_case s, [take 2 (clean_case s), take 2 (drop 2 (clean_case s)),
                                      drop 4 (clean_case s)])
           else None)"
    by (rule rmatch_case_rx) (rule clean_case_no_newline)
  with False show ?thesis
    by (simp add: parse_case_number_def)
qed

text \<open>
  The case number \<open>23CV5681 (12844)\<close> parses to year 23, type CV and sequence 0005681;
  the string \<open>23cv5681\<close>, with small letters, gives no result.
\<close>

theorem parse_case_number_form_witness:
  "parse_case_number ''23CV5681 (12844)'' =
     Some \<lparr>year = ''23'', case_type = ''CV'', sequence = ''0005681'', original = ''23CV5681 (12844)''\<rparr> \<and>
   parse_case_number ''23cv5681'' = None"
proof -
  have 1: "case_form ''23CV5681''"
    by (simp add: case_form_def is_digit_def is_upper_def code_def)
  have 2: "\<not> case_form ''23cv5681''"
    by (simp add: case_form_def is_digit_def is_upper_def code_def)
  from parse_case_number_form [of "''23CV5681 (12844)''"] parse_case_number_form [of "''23cv5681''"] 1 2
  show ?thesis
    by (simp add: clean_sample clean_lower str_zfill_def numeral_3_eq_3)
qed

section \<open>Firm, address and phone of the attorney\<close>

text \<open>
  Claim C8 says that the attorney firm is the first line of the field
  \<open>service_attorney_address\<close>. For a field whose first line ends with a space, the firm
  is the first line without that space.
\<close>

theorem first_line_not_stripped:
  "hd (str_lines ''Doe Law \<newline>123 Main St'') = ''Doe Law '' \<and>
   attorney_firm (map_service ''Jane Smith''
      [''service_attorney_address'' \<mapsto> ''Doe Law \<newline>123 Main St''] initial_attorney_data)
     = ''Doe Law''"
  by (simp add: map_service_parse parse_address_def dict_get_def Let_def str_lines_def
      str_split_chr_def str_replace_chr_def str_strip_def str_lstrip_def str_rstrip_def
      is_space_def code_def split: option.splits prod.splits)

text \<open>
  Claim C8, amended. For a record whose field \<open>service_attorney_address\<close> is non-empty:
  when the field has no character \<open>|\<close>, the attorney firm is its first line with the
  whitespace at both ends removed, and the attorney address is its remaining lines joined
  with a single space, with the whitespace at both ends removed (empty when there is one
  line only); the attorney phone is the substring of the field of the form
  \<open>(DDD) DDD-DDDD\<close>, parentheses and separators optional, that starts first, and it is
  empty when the field has no such substring.
\<close>

theorem attorney_address_projection:
  "d ''service_attorney_address'' = Some addr \<and> addr \<noteq> [] \<longrightarrow>
     (CHR ''|'' \<notin> set addr \<longrightarrow>
        attorney_firm (map_service md d (scraped drv)) = str_strip (hd (str_lines addr)) \<and>
        attorney_address (map_service md d (scraped drv)) =
          str_strip (str_join '' '' (tl (str_lines addr)))) \<and>
     (\<forall>i t. phone_at addr i t \<and> (\<forall>j<i. \<forall>t'. \<not> phone_at addr j t')
        \<longrightarrow> attorney_phone (map_service md d (scraped drv)) = t) \<and>
     ((\<forall>i t. \<not> phone_at addr i t) \<longrightarrow> attorney_phone (map_service md d (scraped drv)) = [])"
proof (intro impI conjI allI)
  assume h: "d ''service_attorney_address'' = Some addr \<and> addr \<noteq> []"
  then have g: "dict_get d ''service_attorney_address'' [] = addr" and ne: "addr \<noteq> []"
    by (simp_all add: dict_get_def)
  {
    assume p: "CHR ''|'' \<notin> set addr"
    from parse_address_lines(1) [OF ne p]
    show "attorney_firm (map_service md d (scraped drv)) = str_strip (hd (str_lines addr))"
      by (simp add: map_service_parse g)
    from parse_address_lines(2) [OF ne p, of "scraped drv"]
    show "attorney_address (map_service md d (scraped drv)) =
          str_strip (str_join '' '' (tl (str_lines addr)))"
      by (simp add: map_service_parse g scraped_fields str_strip_Nil)
  }
  {
    fix i t
    assume "phone_at addr i t \<and> (\<forall>j<i. \<forall>t'. \<not> phone_at addr j t')"
    then have "re_search False phone_rx addr = Some (t, [])"
      using phone_search_first [of addr i t] by blast
    then show "attorney_phone (map_service md d (scraped drv)) = t"
      by (simp add: map_service_parse g parse_address_phone [OF ne])
  }
  assume "\<forall>i t. \<not> phone_at addr i t"
  then have "re_search False phone_rx addr = None" by (rule phone_search_none)
  then show "attorney_phone (map_service md d (scraped drv)) = []"
    by (simp add: map_service_parse g parse_address_phone [OF ne] scraped_fields)
qed

text \<open>
  The address \<open>Doe & Associates / 123 Main St / Columbus, OH (614) 555-1234\<close> on three
  lines gives the firm, the address on one line and the phone \<open>(614) 555-1234\<close>; without
  the number the phone is empty.
\<close>

theorem attorney_address_projection_witness:
  "attorney_firm (map_service ''Jane Smith''
      [''service_attorney_address'' \<mapsto> ''Doe & Associates\<newline>123 Main St\<newline>Columbus, OH (614) 555-1234'']
      (scraped (page [''Jane Smith''] [] []))) = ''Doe & Associates'' \<and>
   attorney_address (map_service ''Jane Smith''
      [''service_attorney_address'' \<mapsto> ''Doe & Associates\<newline>123 Main St\<newline>Columbus, OH (614) 555-1234'']
      (scraped (page [''Jane Smith''] [] []))) = ''123 Main St Columbus, OH (614) 555-1234'' \<and>
   attorney_phone (map_service ''Jane Smith''
      [''service_attorney_address'' \<mapsto> ''Doe & Associates\<newline>123 Main St\<newline>Columbus, OH (614) 555-1234'']
      (scraped (page [''Jane Smith''] [] []))) = ''(614) 555-1234'' \<and>
   attorney_phone (map_service ''Jane Smith''
      [''service_attorney_address'' \<mapsto> ''Doe & Associates\<newline>123 Main St\<newline>Columbus, OH'']
      (scraped (page [''Jane Smith''] [] []))) = []"
proof -
  let ?a1 = "''Doe & Associates\<newline>123 Main St\<newline>Columbus, OH (614) 555-1234''"
  let ?a2 = "''Doe & Associates\<newline>123 Main St\<newline>Columbus, OH''"
  let ?s = "scraped (page [''Jane Smith''] [] [])"
  note t1 = attorney_address_projection
    [of "[''service_attorney_address'' \<mapsto> ?a1]" ?a1 "''Jane Smith''" "page [''Jane Smith''] [] []"]
  note t2 = attorney_address_projection
    [of "[''service_attorney_address'' \<mapsto> ?a2]" ?a2 "''Jane Smith''" "page [''Jane Smith''] [] []"]
  have p: "CHR ''|'' \<notin> set ?a1" by simp
  have l: "str_lines ?a1 = [''Doe & Associates'', ''123 Main St'', ''Columbus, OH (614) 555-1234'']"
    by (simp add: str_lines_def str_split_chr_def)
  have s1: "str_strip ''Doe & Associates'' = ''Doe & Associates''"
    by (simp add: str_strip_def str_lstrip_def str_rstrip_def is_space_def code_def)
  have s2: "str_strip ''123 Main St Columbus, OH (614) 555-1234'' = ''123 Main St Columbus, OH (614) 555-1234''"
    by (simp add: str_strip_def str_lstrip_def str_rstrip_def is_space_def code_def)
  from t1 p have
    "attorney_firm (map_service ''Jane Smith'' [''service_attorney_address'' \<mapsto> ?a1] ?s)
       = str_strip (hd (str_lines ?a1)) \<and>
     attorney_address (map_service ''Jane Smith'' [''service_attorney_address'' \<mapsto> ?a1] ?s)
       = str_strip (str_join '' '' (tl (str_lines ?a1)))"
    by simp
  then have 1:
    "attorney_firm (map_service ''Jane Smith'' [''service_attorney_address'' \<mapsto> ?a1] ?s)
       = ''Doe & Associates'' \<and>
     attorney_address (map_service ''Jane Smith'' [''service_attorney_address'' \<mapsto> ?a1] ?s)
       = ''123 Main St Columbus, OH (614) 555-1234''"
    by (simp add: l s1 s2)
  from phone_search_found [OF phone_sample] obtain i where
    "phone_at ?a1 i ''(614) 555-1234'' \<and> (\<forall>j<i. \<forall>t'. \<not> phone_at ?a1 j t')" by blast
  with t1 have 2:
    "attorney_phone (map_service ''Jane Smith'' [''service_attorney_address'' \<mapsto> ?a1] ?s)
       = ''(614) 555-1234''"
    by simp
  have "\<forall>i t. \<not> phone_at ?a2 i t"
    using phone_search_none_conv [OF phone_absent] by blast
  with t2 have 3:
    "attorney_phone (map_service ''Jane Smith'' [''service_attorney_address'' \<mapsto> ?a2] ?s) = []"
    by simp
  from 1 2 3 show ?thesis by simp
qed

section \<open>A candidate that cannot be read\<close>

text \<open>
  Claim C9. When the extraction of a candidate gives no record, both scans go on with the
  next candidate, from the driver in which the faulty row has been inspected; the result
  of a scan is the one of the scan without the faulty candidate.
\<close>

theorem candidate_fault_contained:
  "read_details (snd row) m = None \<longrightarrow>
     scan_main drv md m (row # rows) =
       scan_main (drv\<lparr>inspected := inspected drv @ [(m, fst row)]\<rparr>) md m rows \<and>
     scan_human drv m (row # rows) =
       scan_human (drv\<lparr>inspected := inspected drv @ [(m, fst row)]\<rparr>) m rows \<and>
     fst (scan_main drv md m (pre @ row # rows)) = fst (scan_main drv md m (pre @ rows)) \<and>
     fst (scan_human drv m (pre @ row # rows)) = fst (scan_human drv m (pre @ rows))"
proof (intro impI conjI)
  assume n: "read_details (snd row) m = None"
  from n show "scan_main drv md m (row # rows) =
       scan_main (drv\<lparr>inspected := inspected drv @ [(m, fst row)]\<rparr>) md m rows"
    by (rule scan_main_skip)
  from n show "scan_human drv m (row # rows) =
       scan_human (drv\<lparr>inspected := inspected drv @ [(m, fst row)]\<rparr>) m rows"
    by (rule scan_human_skip)
  from n show "fst (scan_main drv md m (pre @ row # rows)) = fst (scan_main drv md m (pre @ rows))"
    by (rule scan_main_unread)
  from n show "fst (scan_human drv m (pre @ row # rows)) = fst (scan_human drv m (pre @ rows))"
    by (rule scan_human_unread)
qed

text \<open>
  A row that cannot be read, followed by the row of Jane Smith: the scan returns Jane
  Smith's record and the case ends with the status Found.
\<close>

theorem candidate_fault_contained_witness:
  "map_option served_name
     (fst (scan_main (page [''Jane Smith''] [broken_row, smith_row] []) ''Jane Smith''
            ''CERTIFIED MAIL'' (enumerate 0 [broken_row, smith_row]))) = Some ''Jane Smith'' \<and>
   extraction_status
     (fst (extract_attorney_data (page [''Jane Smith''] [broken_row, smith_row] []) False False False))
     = ''Found''"
proof -
  let ?p = "page [''Jane Smith''] [broken_row, smith_row] []"
  have n: "read_details (snd (0, broken_row)) ''CERTIFIED MAIL'' = None"
    by (simp add: read_details_def broken_row_def)
  have e: "enumerate 0 [broken_row, smith_row] = [] @ (0, broken_row) # [(1, smith_row)]"
    by (simp add: enumerate_eq_zip upt_rec)
  from candidate_fault_contained [of "(0, broken_row)" "''CERTIFIED MAIL''" ?p "''Jane Smith''"
      "[(1, smith_row)]" "[]"] n
  have "fst (scan_main ?p ''Jane Smith'' ''CERTIFIED MAIL'' ([] @ (0, broken_row) # [(1, smith_row)])) =
        fst (scan_main ?p ''Jane Smith'' ''CERTIFIED MAIL'' ([] @ [(1, smith_row)]))"
    by blast
  moreover have "map_option served_name
      (fst (scan_main ?p ''Jane Smith'' ''CERTIFIED MAIL'' ([] @ [(1, smith_row)]))) = Some ''Jane Smith''"
    by (simp add: scan_main_result resolve_eval page_eval str_eval del: scan_main.simps)
  ultimately have 1: "map_option served_name
     (fst (scan_main ?p ''Jane Smith'' ''CERTIFIED MAIL'' (enumerate 0 [broken_row, smith_row])))
       = Some ''Jane Smith''"
    using e by simp
  have "resolve_service ?p ''Jane Smith'' \<noteq> None"
    by (simp add: resolve_eval page_eval str_eval)
  then have 2: "extraction_status (fst (extract_attorney_data ?p False False False)) = ''Found''"
    using extract_ran [OF ran_page, of "[broken_row, smith_row]" "[]"]
    by (auto simp: defendants_of_page main_of_jane resolver_result map_service_fields)
  from 1 2 show ?thesis by simp
qed

section \<open>A candidate without a served name\<close>

text \<open>
  Claim C10. A record whose \<open>service_name\<close> is absent or empty passes the test of the
  primary phase for every main defendant. The primary scan returns it when no candidate
  before it passes the test, whatever comes after it; so does the resolver when the
  candidate is among the first five rows of CERTIFIED MAIL. The attorney record made from
  it has the service match \<open>Main Defendant\<close>.
\<close>

theorem nameless_candidate_wins:
  "(d ''service_name'' = None \<or> d ''service_name'' = Some []) \<longrightarrow>
     name_matches md d \<and>
     (read_details (snd row) m = Some d \<and>
      (\<forall>r\<in>set pre. \<forall>d'. read_details (snd r) m = Some d' \<longrightarrow> \<not> name_matches md d')
        \<longrightarrow> fst (scan_main drv md m (pre @ row # post)) = Some d) \<and>
     (docket drv ''CERTIFIED MAIL'' = Some (rows @ snd row # rest) \<and> length rows < 5 \<and>
      read_details (snd row) ''CERTIFIED MAIL'' = Some d \<and>
      (\<forall>r\<in>set rows. \<forall>d'. read_details r ''CERTIFIED MAIL'' = Some d' \<longrightarrow> \<not> name_matches md d')
        \<longrightarrow> fst (find_proof_of_service_fast drv md) = Some d) \<and>
     service_match (map_service md d a) = ''Main Defendant''"
proof (intro impI conjI)
  assume h: "d ''service_name'' = None \<or> d ''service_name'' = Some []"
  then show nm: "name_matches md d" by (rule nameless_matches)
  from h have "served_name d = []" by (auto simp: served_name_def)
  then show "service_match (map_service md d a) = ''Main Defendant''"
    by (simp add: map_service_fields ci_contains_def str_lower_def)
  {
    assume r: "read_details (snd row) m = Some d \<and>
        (\<forall>r\<in>set pre. \<forall>d'. read_details (snd r) m = Some d' \<longrightarrow> \<not> name_matches md d')"
    have "\<forall>d'\<in>set (readable m (map snd pre)).
            \<not> (ci_contains (served_name d') md \<or> ci_contains md (served_name d'))"
      using r by (induction pre) (auto simp: readable_Cons name_matches_spec split: option.splits)
    with nm r show "fst (scan_main drv md m (pre @ row # post)) = Some d"
      by (simp add: scan_main_result readable_append readable_Cons name_matches_spec
            primary_phase_first del: scan_main.simps)
  }
  assume "docket drv ''CERTIFIED MAIL'' = Some (rows @ snd row # rest) \<and> length rows < 5 \<and>
      read_details (snd row) ''CERTIFIED MAIL'' = Some d \<and>
      (\<forall>r\<in>set rows. \<forall>d'. read_details r ''CERTIFIED MAIL'' = Some d' \<longrightarrow> \<not> name_matches md d')"
  with nm show "fst (find_proof_of_service_fast drv md) = Some d"
    using resolver_nameless_first [of drv rows "snd row" rest d md] by blast
qed

text \<open>
  A row without a name, followed by the row of Jane Smith, for the main defendant Jane
  Smith: the record of the first row is returned, and the case is labelled
  \<open>Main Defendant\<close> with the attorney of the first row.
\<close>

theorem nameless_candidate_wins_witness:
  "map_option (\<lambda>d. d ''service_attorney_name'')
     (fst (scan_main (page [''Jane Smith''] [nameless_row, smith_row] []) ''Jane Smith''
            ''CERTIFIED MAIL'' ([] @ (0, nameless_row) # [(1, smith_row)]))) = Some (Some ''Roe Law'') \<and>
   service_match
     (fst (extract_attorney_data (page [''Jane Smith''] [nameless_row, smith_row] []) False False False))
     = ''Main Defendant'' \<and>
   attorney_name
     (fst (extract_attorney_data (page [''Jane Smith''] [nameless_row, smith_row] []) False False False))
     = ''Roe Law''"
proof -
  let ?p = "page [''Jane Smith''] [nameless_row, smith_row] []"
  obtain d where d: "read_details nameless_row ''CERTIFIED MAIL'' = Some d"
    by (simp add: page_eval)
  then have n: "d ''service_name'' = None \<or> d ''service_name'' = Some []"
    by (auto simp: page_eval str_eval)
  from d have a: "d ''service_attorney_name'' = Some ''Roe Law''"
    by (auto simp: page_eval str_eval)
  note w = nameless_candidate_wins [of d "''Jane Smith''" "(0, nameless_row)" "''CERTIFIED MAIL''"
      "[]" ?p "[(1, smith_row)]" "[]" "[smith_row]" "scraped ?p"]
  from w n d have 1: "fst (scan_main ?p ''Jane Smith'' ''CERTIFIED MAIL''
      ([] @ (0, nameless_row) # [(1, smith_row)])) = Some d"
    by simp
  from w n have 2: "service_match (map_service ''Jane Smith'' d (scraped ?p)) = ''Main Defendant''"
    by blast
  have r: "resolve_service ?p ''Jane Smith'' = Some d"
    using d n by (auto simp: resolve_eval page_def readable_Cons str_eval split: option.splits)
  then have e: "fst (extract_attorney_data ?p False False False) =
      map_service ''Jane Smith'' d (scraped ?p)"
    using extract_ran [OF ran_page, of "[nameless_row, smith_row]" "[]"]
    by (simp add: defendants_of_page main_of_jane resolver_result)
  from 1 2 e a show ?thesis
    by (simp add: map_service_fields dict_get_def)
qed

end
